theory Spec2Isabelle
  imports Main "HOL-Library.Word"
begin

unbundle bit_operations_syntax

section \<open>The TIS bus glue of drivers/char/tpm/tpm\_tis.c\<close>

text \<open>
  The file under study is the memory-mapped glue of the TPM TIS driver: the two register
  accessors \<open>read_mem_bytes\<close> and \<open>write_mem_bytes\<close>, the operations table
  \<open>tpm_tis\<close>, the PNP, ACPI and forced platform attach paths and the module init and
  exit functions. The common transport (\<open>tpm_tis_init_generic\<close>, \<open>tpm_tis_send\<close>,
  \<open>tpm_tis_recv\<close>, ...) lives in tpm\_tis\_common and is only called from here.
\<close>

type_synonym u8 = "8 word"
type_synonym u16 = "16 word"
type_synonym u32 = "32 word"

subsection \<open>Memory-mapped I/O\<close>

text \<open>
  Every \<open>ioreadN\<close>/\<open>iowriteN\<close> is one bus cycle. The cycles are kept in a log, in the
  order they are issued. What a read returns is the device's business: it is a function
  of everything that happened on the bus before and of the address read.
\<close>

datatype io_event =
    IoRead8 nat
  | IoRead16 nat
  | IoRead32 nat
  | IoWrite8 nat u8
  | IoWrite16 nat u16
  | IoWrite32 nat u32

record device =
  in8 :: "io_event list \<Rightarrow> nat \<Rightarrow> u8"
  in16 :: "io_event list \<Rightarrow> nat \<Rightarrow> u16"
  in32 :: "io_event list \<Rightarrow> nat \<Rightarrow> u32"

definition ioread8 :: "device \<Rightarrow> nat \<Rightarrow> io_event list \<Rightarrow> u8 \<times> io_event list" where
  "ioread8 d a log = (in8 d log a, log @ [IoRead8 a])"

definition ioread16 :: "device \<Rightarrow> nat \<Rightarrow> io_event list \<Rightarrow> u16 \<times> io_event list" where
  "ioread16 d a log = (in16 d log a, log @ [IoRead16 a])"

definition ioread32 :: "device \<Rightarrow> nat \<Rightarrow> io_event list \<Rightarrow> u32 \<times> io_event list" where
  "ioread32 d a log = (in32 d log a, log @ [IoRead32 a])"

definition iowrite8 :: "u8 \<Rightarrow> nat \<Rightarrow> io_event list \<Rightarrow> io_event list" where
  "iowrite8 v a log = log @ [IoWrite8 a v]"

definition iowrite16 :: "u16 \<Rightarrow> nat \<Rightarrow> io_event list \<Rightarrow> io_event list" where
  "iowrite16 v a log = log @ [IoWrite16 a v]"

definition iowrite32 :: "u32 \<Rightarrow> nat \<Rightarrow> io_event list \<Rightarrow> io_event list" where
  "iowrite32 v a log = log @ [IoWrite32 a v]"

text \<open>
  A \<open>u8 *\<close> argument is the memory behind the pointer: byte \<open>i\<close> of it is \<open>p[i]\<close>. The
  casts \<open>*(u32 *)p\<close> and \<open>*(u16 *)p\<close> touch bytes 0..3 and 0..1 in the byte order of the
  little-endian ARMv7 core of the LS102xA.
\<close>

type_synonym bytes_at = "nat \<Rightarrow> u8"

definition store_u32 :: "bytes_at \<Rightarrow> u32 \<Rightarrow> bytes_at" where
  "store_u32 p v =
     p(0 := ucast v, 1 := ucast (drop_bit 8 v), 2 := ucast (drop_bit 16 v),
       3 := ucast (drop_bit 24 v))"

definition store_u16 :: "bytes_at \<Rightarrow> u16 \<Rightarrow> bytes_at" where
  "store_u16 p v = p(0 := ucast v, 1 := ucast (drop_bit 8 v))"

definition load_u32 :: "bytes_at \<Rightarrow> u32" where
  "load_u32 p =
     ucast (p 0) OR push_bit 8 (ucast (p 1)) OR push_bit 16 (ucast (p 2))
       OR push_bit 24 (ucast (p 3))"

definition load_u16 :: "bytes_at \<Rightarrow> u16" where
  "load_u16 p = ucast (p 0) OR push_bit 8 (ucast (p 1))"

text \<open>
  Of \<open>struct tpm_chip\<close> this file touches \<open>vendor.iobase\<close>, \<open>vendor.priv\<close> and
  \<open>acpi_dev_handle\<close>; the accessors use \<open>chip->vendor.iobase\<close> only. A pointer is its
  32-bit address, \<open>0\<close> being \<open>NULL\<close>; the I/O base is kept as the number it is added to.
\<close>

type_synonym ptr = u32

record tpm_chip =
  vendor_iobase :: nat
  vendor_priv :: ptr
  acpi_dev_handle :: ptr

text \<open>
  The loop \<open>for (i = 0; i < len; i++) result[i] = ioread8(iobase + addr)\<close>, entered at
  index \<open>i\<close>. In the accessors the parameters \<open>size\<close> and \<open>value\<close> of the source are
  written \<open>sz\<close> and \<open>val\<close>.
\<close>

function read_loop ::
  "device \<Rightarrow> nat \<Rightarrow> nat \<Rightarrow> nat \<Rightarrow> bytes_at \<Rightarrow> io_event list \<Rightarrow> bytes_at \<times> io_event list"
where
  "read_loop d a i len result log =
     (if i < len
      then (let (v, log') = ioread8 d a log in read_loop d a (i + 1) len (result(i := v)) log')
      else (result, log))"
  by pat_completeness auto
termination
  by (relation "measure (\<lambda>(d, a, i, len, result, log). len - i)") auto

definition read_mem_bytes ::
  "device \<Rightarrow> tpm_chip \<Rightarrow> u32 \<Rightarrow> u8 \<Rightarrow> u8 \<Rightarrow> bytes_at \<Rightarrow> io_event list
     \<Rightarrow> bytes_at \<times> io_event list"
where
  "read_mem_bytes d chip addr len sz result log =
     (if sz = 4 then
        (let (v, log') = ioread32 d (vendor_iobase chip + unat addr) log
         in (store_u32 result v, log'))
      else if sz = 2 then
        (let (v, log') = ioread16 d (vendor_iobase chip + unat addr) log
         in (store_u16 result v, log'))
      else if sz = 1 \<and> len = 1 then
        (let (v, log') = ioread8 d (vendor_iobase chip + unat addr) log
         in (result(0 := v), log'))
      else read_loop d (vendor_iobase chip + unat addr) 0 (unat len) result log)"

text \<open>The loop \<open>for (i = 0; i < len; i++) iowrite8(value[i], iobase + addr)\<close>.\<close>

function write_loop :: "nat \<Rightarrow> nat \<Rightarrow> nat \<Rightarrow> bytes_at \<Rightarrow> io_event list \<Rightarrow> io_event list" where
  "write_loop a i len val log =
     (if i < len then write_loop a (i + 1) len val (iowrite8 (val i) a log) else log)"
  by pat_completeness auto
termination
  by (relation "measure (\<lambda>(a, i, len, val, log). len - i)") auto

definition write_mem_bytes ::
  "tpm_chip \<Rightarrow> u32 \<Rightarrow> u8 \<Rightarrow> u8 \<Rightarrow> bytes_at \<Rightarrow> io_event list \<Rightarrow> io_event list"
where
  "write_mem_bytes chip addr len sz val log =
     (if sz = 4 then iowrite32 (load_u32 val) (vendor_iobase chip + unat addr) log
      else if sz = 2 then iowrite16 (load_u16 val) (vendor_iobase chip + unat addr) log
      else if sz = 1 \<and> len = 1 then iowrite8 (val 0) (vendor_iobase chip + unat addr) log
      else write_loop (vendor_iobase chip + unat addr) 0 (unat len) val log)"

subsection \<open>The operations table\<close>

text \<open>
  Modelled from the spec: the status bits of tpm\_tis\_common.h, which is not among the
  sources. Section 6 of the specification fixes them: \<open>VALID\<close> is bit 7,
  \<open>COMMAND_READY\<close> bit 6, \<open>STS_GO\<close> bit 5, \<open>DATA_AVAIL\<close> bit 4 and \<open>EXPECT\<close> bit 3.
\<close>

definition TPM_STS_VALID :: u8 where "TPM_STS_VALID = 0x80"
definition TPM_STS_COMMAND_READY :: u8 where "TPM_STS_COMMAND_READY = 0x40"
definition TPM_STS_GO :: u8 where "TPM_STS_GO = 0x20"
definition TPM_STS_DATA_AVAIL :: u8 where "TPM_STS_DATA_AVAIL = 0x10"
definition TPM_STS_DATA_EXPECT :: u8 where "TPM_STS_DATA_EXPECT = 0x08"

text \<open>
  The handlers of the table that are defined in tpm\_tis\_common are known here by name
  only; the two accessors are the functions above.
\<close>

datatype handler =
    Tpm_tis_status
  | Tpm_tis_recv
  | Tpm_tis_send
  | Tpm_tis_ready
  | Tpm_tis_update_timeouts
  | Tpm_tis_req_canceled

record tpm_class_ops =
  status :: handler
  recv :: handler
  send :: handler
  cancel :: handler
  update_timeouts :: handler
  req_complete_mask :: u8
  req_complete_val :: u8
  req_canceled :: handler
  read_bytes ::
    "device \<Rightarrow> tpm_chip \<Rightarrow> u32 \<Rightarrow> u8 \<Rightarrow> u8 \<Rightarrow> bytes_at \<Rightarrow> io_event list
       \<Rightarrow> bytes_at \<times> io_event list"
  write_bytes :: "tpm_chip \<Rightarrow> u32 \<Rightarrow> u8 \<Rightarrow> u8 \<Rightarrow> bytes_at \<Rightarrow> io_event list \<Rightarrow> io_event list"

definition tpm_tis :: tpm_class_ops where
  "tpm_tis =
     \<lparr> status = Tpm_tis_status,
       recv = Tpm_tis_recv,
       send = Tpm_tis_send,
       cancel = Tpm_tis_ready,
       update_timeouts = Tpm_tis_update_timeouts,
       req_complete_mask = TPM_STS_DATA_AVAIL OR TPM_STS_VALID,
       req_complete_val = TPM_STS_DATA_AVAIL OR TPM_STS_VALID,
       req_canceled = Tpm_tis_req_canceled,
       read_bytes = read_mem_bytes,
       write_bytes = write_mem_bytes \<rparr>"

text \<open>
  Modelled from the spec: the completion test of the generic TPM layer (tpm-interface.c,
  not among the sources), for which the table carries \<open>req_complete_mask\<close> and
  \<open>req_complete_val\<close>: a command has completed when the status byte, masked with the
  one, equals the other. It is given for an arbitrary table.
\<close>

definition req_complete :: "tpm_class_ops \<Rightarrow> u8 \<Rightarrow> bool" where
  "req_complete ops s = (s AND req_complete_mask ops = req_complete_val ops)"

subsection \<open>Kernel services\<close>

text \<open>
  The glue calls into the driver core, the PNP, ACPI and platform buses and the common
  transport. None of that code is part of this file. Each such call is logged with its
  arguments, and what it returns is left to the kernel: a function of the log up to and
  including the call, as a return code (a C \<open>int\<close>) or as a pointer, whichever the call
  yields. An \<open>ERR_PTR\<close> is one of the top 4095 addresses; \<open>PTR_ERR\<close> reads it back as
  the negative error code.
\<close>

datatype kcall =
    Devm_kzalloc ptr
  | Tpmm_chip_alloc ptr
  | Devm_ioremap ptr u32 u32
  | Tpm_tis_init_generic ptr ptr u32 bool bool
  | Pnp_register_driver
  | Pnp_unregister_driver
  | Acpi_bus_register_driver
  | Acpi_bus_unregister_driver
  | Platform_driver_register
  | Platform_driver_unregister
  | Platform_device_register_simple
  | Platform_device_unregister ptr
  | Tpm_chip_unregister ptr
  | Tpm_tis_remove ptr

record kernel =
  kret :: "kcall list \<Rightarrow> int"
  kptr :: "kcall list \<Rightarrow> ptr"

definition ENOMEM :: int where "ENOMEM = 12"
definition EIO :: int where "EIO = 5"
definition ENODEV :: int where "ENODEV = 19"

definition IS_ERR :: "ptr \<Rightarrow> bool" where
  "IS_ERR p = (- 4095 \<le> p)"

definition PTR_ERR :: "ptr \<Rightarrow> int" where
  "PTR_ERR p = sint p"

text \<open>
  What the module holds registered with the buses. A registration that returns 0 took
  effect; an unregistration always does.
\<close>

datatype resource = PnpDriver | AcpiDriver | PlatformDriver | PlatformDevice

text \<open>
  The module's variables: the three parameters \<open>interrupts\<close> (initially true), \<open>itpm\<close>
  and \<open>force\<close>, and \<open>pdev\<close>. Beside them the state of the kernel as far as the glue can
  see it: the log of calls, the registrations, the chip objects and the driver data of
  each device.
\<close>

record world =
  interrupts :: bool
  itpm :: bool
  force :: bool
  pdev :: ptr
  klog :: "kcall list"
  registered :: "resource set"
  chips :: "ptr \<Rightarrow> tpm_chip"
  drvdata :: "ptr \<Rightarrow> ptr"

definition kcall_ret :: "kernel \<Rightarrow> kcall \<Rightarrow> world \<Rightarrow> int \<times> world" where
  "kcall_ret k c w = (kret k (klog w @ [c]), w\<lparr>klog := klog w @ [c]\<rparr>)"

definition kcall_ptr :: "kernel \<Rightarrow> kcall \<Rightarrow> world \<Rightarrow> ptr \<times> world" where
  "kcall_ptr k c w = (kptr k (klog w @ [c]), w\<lparr>klog := klog w @ [c]\<rparr>)"

definition kcall_void :: "kcall \<Rightarrow> world \<Rightarrow> world" where
  "kcall_void c w = w\<lparr>klog := klog w @ [c]\<rparr>"

definition register_with :: "kernel \<Rightarrow> kcall \<Rightarrow> resource \<Rightarrow> world \<Rightarrow> int \<times> world" where
  "register_with k c r w =
     (let (rc, w') = kcall_ret k c w
      in (rc, if rc = 0 then w'\<lparr>registered := insert r (registered w')\<rparr> else w'))"

definition unregister_with :: "kcall \<Rightarrow> resource \<Rightarrow> world \<Rightarrow> world" where
  "unregister_with c r w = (kcall_void c w)\<lparr>registered := registered w - {r}\<rparr>"

definition pnp_register_driver :: "kernel \<Rightarrow> world \<Rightarrow> int \<times> world" where
  "pnp_register_driver k w = register_with k Pnp_register_driver PnpDriver w"

definition pnp_unregister_driver :: "world \<Rightarrow> world" where
  "pnp_unregister_driver w = unregister_with Pnp_unregister_driver PnpDriver w"

definition acpi_bus_register_driver :: "kernel \<Rightarrow> world \<Rightarrow> int \<times> world" where
  "acpi_bus_register_driver k w = register_with k Acpi_bus_register_driver AcpiDriver w"

definition acpi_bus_unregister_driver :: "world \<Rightarrow> world" where
  "acpi_bus_unregister_driver w = unregister_with Acpi_bus_unregister_driver AcpiDriver w"

definition platform_driver_register :: "kernel \<Rightarrow> world \<Rightarrow> int \<times> world" where
  "platform_driver_register k w = register_with k Platform_driver_register PlatformDriver w"

definition platform_driver_unregister :: "world \<Rightarrow> world" where
  "platform_driver_unregister w = unregister_with Platform_driver_unregister PlatformDriver w"

definition platform_device_register_simple :: "kernel \<Rightarrow> world \<Rightarrow> ptr \<times> world" where
  "platform_device_register_simple k w =
     (let (p, w') = kcall_ptr k Platform_device_register_simple w
      in (p, if IS_ERR p then w' else w'\<lparr>registered := insert PlatformDevice (registered w')\<rparr>))"

definition platform_device_unregister :: "ptr \<Rightarrow> world \<Rightarrow> world" where
  "platform_device_unregister p w = unregister_with (Platform_device_unregister p) PlatformDevice w"

definition tpm_chip_unregister :: "ptr \<Rightarrow> world \<Rightarrow> world" where
  "tpm_chip_unregister chip w = kcall_void (Tpm_chip_unregister chip) w"

definition tpm_tis_remove :: "ptr \<Rightarrow> world \<Rightarrow> world" where
  "tpm_tis_remove chip w = kcall_void (Tpm_tis_remove chip) w"

text \<open>
  \<open>tpmm_chip_alloc\<close> of the generic layer returns the new chip or an \<open>ERR_PTR\<close>; the chip
  it returns is stored as the driver data of the device, which is where the remove paths
  look for it.
\<close>

definition tpmm_chip_alloc :: "kernel \<Rightarrow> ptr \<Rightarrow> world \<Rightarrow> ptr \<times> world" where
  "tpmm_chip_alloc k dev w =
     (let (chip, w') = kcall_ptr k (Tpmm_chip_alloc dev) w
      in (chip, if IS_ERR chip then w' else w'\<lparr>drvdata := (drvdata w')(dev := chip)\<rparr>))"

subsection \<open>Build configuration and enumerated devices\<close>

text \<open>
  The file is compiled under \<open>CONFIG_PNP\<close> and \<open>CONFIG_ACPI\<close>. The macros \<open>TIS_MEM_BASE\<close>,
  \<open>TIS_MEM_LEN\<close> and \<open>TPM2_START_FIFO\<close> come from headers that are not among the sources
  and are parameters here. So is \<open>irq\<close>: \<open>tpm_tis_init\<close> hands an \<open>irq\<close> to the common
  initialization that the file itself never declares. The target is the 32-bit LS102xA:
  \<open>unsigned long\<close> and \<open>unsigned int\<close> are 32 bits wide, a bus resource address 64.
\<close>

record config =
  CONFIG_PNP :: bool
  CONFIG_ACPI :: bool
  TIS_MEM_BASE :: u32
  TIS_MEM_LEN :: u32
  TPM2_START_FIFO :: u32
  irq :: u32

text \<open>
  \<open>struct tpm_info\<close> (fields \<open>start\<close>, \<open>len\<close>, \<open>irq\<close>, prefixed here to keep them apart
  from the variables of the same names) and its default instance. The source text carries
  the two declarations inside the body of \<open>write_mem_bytes\<close>; they are read as the
  file-level declarations that the attach paths below refer to.
\<close>

record tpm_info =
  info_start :: u32
  info_len :: u32
  info_irq :: u32

definition tis_default_info :: "config \<Rightarrow> tpm_info" where
  "tis_default_info cfg =
     \<lparr> info_start = TIS_MEM_BASE cfg, info_len = TIS_MEM_LEN cfg, info_irq = 0 \<rparr>"

text \<open>
  An ACPI resource as \<open>tpm_check_resource\<close> tells them apart: one that
  \<open>acpi_dev_resource_interrupt\<close> accepts (with its \<open>start\<close>), one that
  \<open>acpi_dev_resource_memory\<close> accepts (with \<open>start\<close> and \<open>end\<close>), or neither.
\<close>

datatype acpi_resource =
    Ares_interrupt "64 word"
  | Ares_memory "64 word" "64 word"
  | Ares_other

text \<open>
  An ACPI device: its \<open>struct device\<close>, the hardware ids of \<open>dev->pnp.ids\<close>, its handle,
  what \<open>acpi_get_table(ACPI_SIG_TPM2, 1, ...)\<close> finds (the table's \<open>start_method\<close>, or
  nothing on failure), the resources \<open>acpi_dev_get_resources\<close> walks and the value it
  returns.
\<close>

record acpi_device =
  acpi_dev :: ptr
  pnp_ids :: "string list"
  handle :: ptr
  tpm2_start_method :: "u32 option"
  resources :: "acpi_resource list"
  get_resources_ret :: int

text \<open>
  A PNP device: its \<open>struct device\<close>, \<open>pnp_mem_start(dev, 0)\<close>, \<open>pnp_mem_len(dev, 0)\<close>,
  \<open>pnp_irq_valid(dev, 0)\<close>, \<open>pnp_irq(dev, 0)\<close> and \<open>pnp_acpi_device(dev)\<close>.
\<close>

record pnp_dev =
  pnp_device :: ptr
  pnp_mem_start :: "64 word"
  pnp_mem_len :: "64 word"
  pnp_irq_valid :: bool
  pnp_irq :: "64 word"
  pnp_acpi_device :: "acpi_device option"

subsection \<open>Device identification\<close>

text \<open>
  \<open>has_hid\<close> walks the id list of the device and compares strings. \<open>is_fifo\<close> also prints
  a message when the TPM2 table cannot be read; the message is not kept.
\<close>

fun has_hid_ids :: "string list \<Rightarrow> string \<Rightarrow> int" where
  "has_hid_ids [] hid = 0"
| "has_hid_ids (i # ids) hid = (if hid = i then 1 else has_hid_ids ids hid)"

definition has_hid :: "acpi_device \<Rightarrow> string \<Rightarrow> int" where
  "has_hid dev hid = has_hid_ids (pnp_ids dev) hid"

definition is_itpm :: "config \<Rightarrow> acpi_device \<Rightarrow> int" where
  "is_itpm cfg dev =
     (if CONFIG_PNP cfg \<and> CONFIG_ACPI cfg then has_hid dev ''INTC0102'' else 0)"

definition is_fifo :: "config \<Rightarrow> acpi_device \<Rightarrow> int" where
  "is_fifo cfg dev =
     (if CONFIG_PNP cfg \<and> CONFIG_ACPI cfg then
        (if has_hid dev ''MSFT0101'' = 0 then 1
         else case tpm2_start_method dev of
                None \<Rightarrow> 0
              | Some m \<Rightarrow> if m \<noteq> TPM2_START_FIFO cfg then 0 else 1)
      else 1)"

subsection \<open>Attach\<close>

definition tpm_tis_init ::
  "config \<Rightarrow> kernel \<Rightarrow> ptr \<Rightarrow> tpm_info \<Rightarrow> ptr \<Rightarrow> world \<Rightarrow> int \<times> world"
where
  "tpm_tis_init cfg k dev tpm_info acpi_handle w =
     (let (priv, w1) = kcall_ptr k (Devm_kzalloc dev) w in
      if priv = 0 then (- ENOMEM, w1)
      else
        let (chip, w2) = tpmm_chip_alloc k dev w1 in
        if IS_ERR chip then (PTR_ERR chip, w2)
        else
          let c1 = (chips w2 chip)\<lparr>vendor_priv := priv\<rparr>;
              c2 = (if CONFIG_ACPI cfg then c1\<lparr>acpi_dev_handle := acpi_handle\<rparr> else c1);
              (iobase, w3) =
                 kcall_ptr k (Devm_ioremap dev (info_start tpm_info) (info_len tpm_info)) w2;
              c3 = c2\<lparr>vendor_iobase := unat iobase\<rparr>;
              w4 = w3\<lparr>chips := (chips w3)(chip := c3)\<rparr>
          in if iobase = 0 then (- EIO, w4)
             else kcall_ret k
                    (Tpm_tis_init_generic dev chip (irq cfg) (interrupts w4) (itpm w4)) w4)"

definition tpm_tis_pnp_init :: "config \<Rightarrow> kernel \<Rightarrow> pnp_dev \<Rightarrow> world \<Rightarrow> int \<times> world" where
  "tpm_tis_pnp_init cfg k pd w =
     (let info0 = (tis_default_info cfg)
                    \<lparr>info_start := ucast (pnp_mem_start pd), info_len := ucast (pnp_mem_len pd)\<rparr>;
          info1 = (if pnp_irq_valid pd then info0\<lparr>info_irq := ucast (pnp_irq pd)\<rparr> else info0);
          w1 = (if pnp_irq_valid pd then w else w\<lparr>interrupts := False\<rparr>);
          w2 = (if CONFIG_ACPI cfg then
                  (case pnp_acpi_device pd of
                     None \<Rightarrow> w1
                   | Some a \<Rightarrow> if is_itpm cfg a \<noteq> 0 then w1\<lparr>itpm := True\<rparr> else w1)
                else w1);
          acpi_handle = (if CONFIG_ACPI cfg then
                           (case pnp_acpi_device pd of None \<Rightarrow> 0 | Some a \<Rightarrow> handle a)
                         else 0)
      in tpm_tis_init cfg k (pnp_device pd) info1 acpi_handle w2)"

definition resource_size :: "64 word \<Rightarrow> 64 word \<Rightarrow> 64 word" where
  "resource_size res_start res_end = res_end - res_start + 1"

fun tpm_check_resource :: "acpi_resource \<Rightarrow> tpm_info \<Rightarrow> tpm_info" where
  "tpm_check_resource (Ares_interrupt res_start) info = info\<lparr>info_irq := ucast res_start\<rparr>"
| "tpm_check_resource (Ares_memory res_start res_end) info =
     info\<lparr>info_start := ucast res_start, info_len := ucast (resource_size res_start res_end)\<rparr>"
| "tpm_check_resource Ares_other info = info"

text \<open>
  \<open>acpi_dev_get_resources\<close> calls \<open>tpm_check_resource\<close> on each resource of the device in
  turn; the callback always answers 1, so the walk never stops early on its account.
\<close>

definition acpi_dev_get_resources :: "acpi_device \<Rightarrow> tpm_info \<Rightarrow> int \<times> tpm_info" where
  "acpi_dev_get_resources a info = (get_resources_ret a, fold tpm_check_resource (resources a) info)"

definition tpm_tis_acpi_init :: "config \<Rightarrow> kernel \<Rightarrow> acpi_device \<Rightarrow> world \<Rightarrow> int \<times> world" where
  "tpm_tis_acpi_init cfg k a w =
     (if is_fifo cfg a = 0 then (- ENODEV, w)
      else
        let (ret, info) = acpi_dev_get_resources a (tis_default_info cfg) in
        if ret < 0 then (ret, w)
        else
          let w1 = (if info_irq info = 0 then w\<lparr>interrupts := False\<rparr> else w);
              w2 = (if is_itpm cfg a \<noteq> 0 then w1\<lparr>itpm := True\<rparr> else w1)
          in tpm_tis_init cfg k (acpi_dev a) info (handle a) w2)"

subsection \<open>Detach\<close>

definition tpm_tis_pnp_remove :: "pnp_dev \<Rightarrow> world \<Rightarrow> world" where
  "tpm_tis_pnp_remove pd w =
     (let chip = drvdata w (pnp_device pd)
      in tpm_tis_remove chip (tpm_chip_unregister chip w))"

definition tpm_tis_acpi_remove :: "acpi_device \<Rightarrow> world \<Rightarrow> int \<times> world" where
  "tpm_tis_acpi_remove a w =
     (let chip = drvdata w (acpi_dev a)
      in (0, tpm_tis_remove chip (tpm_chip_unregister chip w)))"

subsection \<open>Module init and exit\<close>

text \<open>The forced path of \<open>init_tis\<close>, from \<open>platform_driver_register\<close> on.\<close>

definition init_tis_force :: "config \<Rightarrow> kernel \<Rightarrow> world \<Rightarrow> int \<times> world" where
  "init_tis_force cfg k w =
     (let (rc, w1) = platform_driver_register k w in
      if rc < 0 then (rc, w1)
      else
        let (p, w2) = platform_device_register_simple k w1;
            w3 = w2\<lparr>pdev := p\<rparr>
        in if IS_ERR p then (PTR_ERR p, platform_driver_unregister w3)
           else
             let (rc', w4) = tpm_tis_init cfg k (pdev w3) (tis_default_info cfg) 0 w3 in
             if rc' \<noteq> 0
             then (rc', platform_driver_unregister (platform_device_unregister (pdev w4) w4))
             else (0, w4))"

text \<open>
  The world in which the forced path calls \<open>tpm_tis_init\<close>: platform driver and device
  registered, \<open>pdev\<close> assigned.
\<close>

definition force_attach_world :: "kernel \<Rightarrow> world \<Rightarrow> world" where
  "force_attach_world k w =
     (let (rc, w1) = platform_driver_register k w;
          (p, w2) = platform_device_register_simple k w1
      in w2\<lparr>pdev := p\<rparr>)"

text \<open>The part of \<open>init_tis\<close> under \<open>CONFIG_ACPI\<close> and what follows it.\<close>

definition init_tis_acpi :: "config \<Rightarrow> kernel \<Rightarrow> world \<Rightarrow> int \<times> world" where
  "init_tis_acpi cfg k w =
     (if CONFIG_ACPI cfg \<and> \<not> force w then
        (let (rc, w1) = acpi_bus_register_driver k w in
         if rc \<noteq> 0
         then (rc, if CONFIG_PNP cfg then pnp_unregister_driver w1 else w1)
         else if \<not> force w1 then (0, w1) else init_tis_force cfg k w1)
      else if \<not> force w then (0, w)
      else init_tis_force cfg k w)"

definition init_tis :: "config \<Rightarrow> kernel \<Rightarrow> world \<Rightarrow> int \<times> world" where
  "init_tis cfg k w =
     (if CONFIG_PNP cfg \<and> \<not> force w then
        (let (rc, w1) = pnp_register_driver k w in
         if rc \<noteq> 0 then (rc, w1) else init_tis_acpi cfg k w1)
      else init_tis_acpi cfg k w)"

text \<open>
  \<open>cleanup_tis\<close> reads the driver data through \<open>pdev\<close>. With \<open>pdev\<close> still \<open>NULL\<close> that
  read is a fault.
\<close>

datatype fault = Null_pointer_dereference

definition cleanup_tis :: "config \<Rightarrow> world \<Rightarrow> fault + world" where
  "cleanup_tis cfg w =
     (if (CONFIG_PNP cfg \<or> CONFIG_ACPI cfg) \<and> \<not> force w then
        (let w1 = (if CONFIG_ACPI cfg then acpi_bus_unregister_driver w else w);
             w2 = (if CONFIG_PNP cfg then pnp_unregister_driver w1 else w1)
         in Inr w2)
      else if pdev w = 0 then Inl Null_pointer_dereference
      else
        (let chip = drvdata w (pdev w)
         in Inr (platform_driver_unregister
                   (platform_device_unregister (pdev w)
                      (tpm_tis_remove chip (tpm_chip_unregister chip w))))))"

text \<open>
  The flags a log shows to have been handed to the common initialization, in order, and
  those handed over on behalf of one device.
\<close>

fun flags_passed :: "kcall list \<Rightarrow> (bool \<times> bool) list" where
  "flags_passed [] = []"
| "flags_passed (Tpm_tis_init_generic dev chip i n t # cs) = (n, t) # flags_passed cs"
| "flags_passed (c # cs) = flags_passed cs"

fun flags_passed_for :: "ptr \<Rightarrow> kcall list \<Rightarrow> (bool \<times> bool) list" where
  "flags_passed_for d [] = []"
| "flags_passed_for d (Tpm_tis_init_generic dev chip i n t # cs) =
     (if dev = d then (n, t) # flags_passed_for d cs else flags_passed_for d cs)"
| "flags_passed_for d (c # cs) = flags_passed_for d cs"

subsection \<open>The device context\<close>

text \<open>
  Modelled from the spec: the Device Context that \<open>tpm_tis_init_generic\<close> of
  tpm\_tis\_common (not among the sources) builds from the flags it is handed, and the
  choice of the wait strategy. By sections 3 and 4.3 the context owns an interrupt
  availability flag and a workaround mode flag, the strategy is a property of the
  context, and polling is used in the absence of usable interrupts: interrupts switched
  off by configuration, none wired, or the device never signalling.
\<close>

datatype wait_strategy = Interrupt_backed | Polling

record device_context =
  irq_available :: bool
  workaround_mode :: bool

definition make_context :: "bool \<Rightarrow> bool \<Rightarrow> bool \<Rightarrow> device_context" where
  "make_context interrupts_on itpm_on irq_usable =
     \<lparr> irq_available = (interrupts_on \<and> irq_usable), workaround_mode = itpm_on \<rparr>"

definition wait_strategy_of :: "device_context \<Rightarrow> wait_strategy" where
  "wait_strategy_of ctx = (if irq_available ctx then Interrupt_backed else Polling)"

subsection \<open>The transfer engine of the specification\<close>

text \<open>
  Modelled from the spec: the Locality Manager and the Transfer Engine (sections 4.1 and
  4.4), that is \<open>request_locality\<close>, \<open>send\<close> and \<open>recv\<close>. Their code (\<open>tpm_tis_send\<close>,
  \<open>tpm_tis_recv\<close> and the locality helpers of tpm\_tis\_common) is not among the sources;
  the table above only names them. What follows is the protocol as the specification
  words it, run against a simulated device.

  The simulated device answers register reads: the \<open>k\<close>-th read of the status register
  reports the burst count \<open>burst_at k\<close> and the flags \<open>ready_at k\<close> (\<open>COMMAND_READY\<close>) and
  \<open>avail_at k\<close> (\<open>DATA_AVAIL\<close>), the \<open>k\<close>-th read of the access register reports through
  \<open>active_at k\<close> whether the requested locality is active, and the FIFO yields the bytes
  of \<open>response\<close> in order and then runs dry.
\<close>

datatype tis_error = LocalityTimeout | NotReady | Timeout | MalformedResponse | IoError | Canceled

record sim_tpm =
  burst_at :: "nat \<Rightarrow> nat"
  ready_at :: "nat \<Rightarrow> bool"
  avail_at :: "nat \<Rightarrow> bool"
  active_at :: "nat \<Rightarrow> bool"
  response :: "u8 list"

text \<open>
  What the engine does to the device: register writes, and FIFO accesses, each FIFO
  access tagged with the burst count advertised by the status read that preceded it. The
  flag of a FIFO write marks the final byte of a command.
\<close>

datatype bus_op =
    Request_locality nat
  | Relinquish_locality nat
  | Assert_command_ready
  | Deassert_command_ready
  | Assert_go
  | Fifo_write nat "u8 list" bool
  | Fifo_read nat "u8 list"

text \<open>
  The engine's side of a Device Context: the register reads made so far, the accesses
  made so far, how many response bytes have been taken from the FIFO, and the locality
  currently claimed, if any.
\<close>

record engine =
  reads :: nat
  bus_ops :: "bus_op list"
  taken :: nat
  locality :: "nat option"

text \<open>
  The Timeout Set, each duration counted in polls of the register waited on. The
  specification bounds every register wait but names no class for the wait for a
  non-zero burst count; it has a bound of its own here.
\<close>

record timeout_set =
  timeout_a :: nat
  timeout_b :: nat
  timeout_c :: nat
  timeout_d :: nat
  timeout_burst :: nat

text \<open>Polling wait (4.3): re-read until the condition holds or the budget is spent.\<close>

fun wait_for :: "(nat \<Rightarrow> bool) \<Rightarrow> nat \<Rightarrow> engine \<Rightarrow> bool \<times> engine" where
  "wait_for cond 0 e = (False, e)"
| "wait_for cond (Suc n) e =
     (if cond (reads e) then (True, e\<lparr>reads := Suc (reads e)\<rparr>)
      else wait_for cond n (e\<lparr>reads := Suc (reads e)\<rparr>))"

definition request_locality ::
  "sim_tpm \<Rightarrow> timeout_set \<Rightarrow> nat \<Rightarrow> engine \<Rightarrow> tis_error option \<times> engine"
where
  "request_locality d ts n e =
     (if locality e = Some n then (None, e)
      else
        let e1 = e\<lparr>bus_ops := bus_ops e @ [Request_locality n]\<rparr>;
            (ok, e2) = wait_for (active_at d) (timeout_a ts) e1
        in if ok then (None, e2\<lparr>locality := Some n\<rparr>) else (Some LocalityTimeout, e2))"

definition release_locality :: "nat \<Rightarrow> engine \<Rightarrow> engine" where
  "release_locality n e = e\<lparr>bus_ops := bus_ops e @ [Relinquish_locality n], locality := None\<rparr>"

text \<open>
  Step 3 of \<open>send\<close>: the burst count is read before every chunk; a burst count of 0 is
  waited out, within the budget; a chunk is no larger than the burst count just read;
  the final byte is written on its own.
\<close>

function send_fifo ::
  "sim_tpm \<Rightarrow> nat \<Rightarrow> nat \<Rightarrow> u8 list \<Rightarrow> engine \<Rightarrow> tis_error option \<times> engine"
where
  "send_fifo d budget left rem e =
     (if rem = [] then (None, e)
      else if left = 0 then (Some Timeout, e)
      else
        let b = burst_at d (reads e);
            e1 = e\<lparr>reads := Suc (reads e)\<rparr>
        in if b = 0 then send_fifo d budget (left - 1) rem e1
           else
             let n = (if length rem = 1 then 1 else min b (length rem - 1));
                 e2 = e1\<lparr>bus_ops := bus_ops e1 @ [Fifo_write b (take n rem) (length rem = 1)]\<rparr>
             in send_fifo d budget budget (drop n rem) e2)"
  by pat_completeness auto
termination
  by (relation "measures [\<lambda>(d, budget, left, rem, e). length rem,
                          \<lambda>(d, budget, left, rem, e). left]")
     (auto simp: Let_def min_def neq_Nil_conv split: if_splits)

definition tis_send ::
  "sim_tpm \<Rightarrow> timeout_set \<Rightarrow> nat \<Rightarrow> u8 list \<Rightarrow> engine \<Rightarrow> tis_error option \<times> engine"
where
  "tis_send d ts n buf e =
     (case request_locality d ts n e of
        (Some err, e1) \<Rightarrow> (Some err, e1)
      | (None, e1) \<Rightarrow>
          let e2 = e1\<lparr>bus_ops := bus_ops e1 @ [Assert_command_ready]\<rparr>;
              (ok, e3) = wait_for (ready_at d) (timeout_b ts) e2
          in if \<not> ok then (Some NotReady, e3)
             else
               (case send_fifo d (timeout_burst ts) (timeout_burst ts) buf e3 of
                  (Some err, e4) \<Rightarrow> (Some err, e4)
                | (None, e4) \<Rightarrow> (None, e4\<lparr>bus_ops := bus_ops e4 @ [Assert_go]\<rparr>)))"

text \<open>
  Reading \<open>need\<close> bytes from the FIFO, in chunks no larger than the burst count. A FIFO
  that has run dry before the bytes are in is a short read: a hard error, not retried.
\<close>

function recv_fifo ::
  "sim_tpm \<Rightarrow> nat \<Rightarrow> nat \<Rightarrow> nat \<Rightarrow> engine \<Rightarrow> u8 list \<Rightarrow> (tis_error + u8 list) \<times> engine"
where
  "recv_fifo d budget left need e acc =
     (if need = 0 then (Inr acc, e)
      else if length (response d) \<le> taken e then (Inl IoError, e)
      else if left = 0 then (Inl Timeout, e)
      else
        let b = burst_at d (reads e);
            e1 = e\<lparr>reads := Suc (reads e)\<rparr>
        in if b = 0 then recv_fifo d budget (left - 1) need e1 acc
           else
             let c = take (min b need) (drop (taken e1) (response d));
                 e2 = e1\<lparr>taken := taken e1 + length c, bus_ops := bus_ops e1 @ [Fifo_read b c]\<rparr>
             in recv_fifo d budget budget (need - length c) e2 (acc @ c))"
  by pat_completeness auto
termination
  by (relation "measures [\<lambda>(d, budget, left, need, e, acc). need,
                          \<lambda>(d, budget, left, need, e, acc). left]") auto

text \<open>
  The response header is 6 bytes, tag and total length; the length is the 32-bit number
  in bytes 2 to 5, most significant byte first, as the TPM puts all its numbers on the
  wire.
\<close>

definition declared_length :: "u8 list \<Rightarrow> nat" where
  "declared_length hdr =
     unat (hdr ! 2) * 16777216 + unat (hdr ! 3) * 65536 + unat (hdr ! 4) * 256 + unat (hdr ! 5)"

text \<open>
  \<open>recv\<close> into a buffer of \<open>capacity\<close> bytes. The command sent decides whether the wait
  for \<open>DATA_AVAIL\<close> is bounded by class C or, for the slow commands, by class D.
\<close>

definition tis_recv ::
  "sim_tpm \<Rightarrow> timeout_set \<Rightarrow> bool \<Rightarrow> nat \<Rightarrow> engine \<Rightarrow> (tis_error + u8 list) \<times> engine"
where
  "tis_recv d ts slow capacity e =
     (let (ok, e1) = wait_for (avail_at d) (if slow then timeout_d ts else timeout_c ts) e in
      if \<not> ok then (Inl Timeout, e1)
      else
        (case recv_fifo d (timeout_burst ts) (timeout_burst ts) 6 e1 [] of
           (Inl err, e2) \<Rightarrow> (Inl err, e2)
         | (Inr hdr, e2) \<Rightarrow>
             if declared_length hdr < 6 \<or> capacity < declared_length hdr
             then (Inl MalformedResponse, e2)
             else
               (case recv_fifo d (timeout_burst ts) (timeout_burst ts)
                       (declared_length hdr - 6) e2 [] of
                  (Inl err, e3) \<Rightarrow> (Inl err, e3)
                | (Inr body, e3) \<Rightarrow>
                    (Inr (hdr @ body), e3\<lparr>bus_ops := bus_ops e3 @ [Deassert_command_ready]\<rparr>))))"

text \<open>Reading an access log: the bytes written, the bytes read, and the burst limit.\<close>

fun fifo_written :: "bus_op list \<Rightarrow> u8 list" where
  "fifo_written [] = []"
| "fifo_written (Fifo_write b c fin # xs) = c @ fifo_written xs"
| "fifo_written (x # xs) = fifo_written xs"

fun fifo_got :: "bus_op list \<Rightarrow> u8 list" where
  "fifo_got [] = []"
| "fifo_got (Fifo_read b c # xs) = c @ fifo_got xs"
| "fifo_got (x # xs) = fifo_got xs"

fun within_burst :: "bus_op \<Rightarrow> bool" where
  "within_burst (Fifo_write b c fin) = (length c \<le> b)"
| "within_burst (Fifo_read b c) = (length c \<le> b)"
| "within_burst x = True"

fun register_writes :: "bus_op list \<Rightarrow> bus_op list" where
  "register_writes [] = []"
| "register_writes (Fifo_read b c # xs) = register_writes xs"
| "register_writes (x # xs) = x # register_writes xs"

text \<open>
  The log against the device. Status reads \<open>lo\<close> up to \<open>hi - 1\<close> are the ones made while
  the accesses of the log were issued. Each FIFO access must have a status read \<open>k\<close> of
  its own among them, later than the read of the access before it: every read between
  the two reported a burst count of 0, read \<open>k\<close> reported the burst count the access is
  tagged with, and the access moves no more bytes than that. The reads after the last
  access all reported 0.
\<close>

fun advertised :: "sim_tpm \<Rightarrow> nat \<Rightarrow> nat \<Rightarrow> bus_op list \<Rightarrow> bool" where
  "advertised d lo hi [] = (\<forall>j\<in>{lo..<hi}. burst_at d j = 0)"
| "advertised d lo hi (Fifo_write b c fin # xs) =
     (\<exists>k\<in>{lo..<hi}. (\<forall>j\<in>{lo..<k}. burst_at d j = 0) \<and> burst_at d k = b \<and> length c \<le> b
        \<and> advertised d (Suc k) hi xs)"
| "advertised d lo hi (Fifo_read b c # xs) =
     (\<exists>k\<in>{lo..<hi}. (\<forall>j\<in>{lo..<k}. burst_at d j = 0) \<and> burst_at d k = b \<and> length c \<le> b
        \<and> advertised d (Suc k) hi xs)"
| "advertised d lo hi (x # xs) = advertised d lo hi xs"

text \<open>
  Modelled from the spec: the waits that come before the FIFO is touched, that is steps 1
  and 2 of \<open>send\<close> (the locality request and the wait for \<open>COMMAND_READY\<close>) and step 1 of
  \<open>recv\<close> (the wait for \<open>DATA_AVAIL\<close>), as \<open>tis_send\<close> and \<open>tis_recv\<close> above run
  them. Each yields whether the wait succeeded and the engine as it then is.
\<close>

definition send_fifo_entry :: "sim_tpm \<Rightarrow> timeout_set \<Rightarrow> nat \<Rightarrow> engine \<Rightarrow> bool \<times> engine" where
  "send_fifo_entry d ts n e =
     wait_for (ready_at d) (timeout_b ts)
       ((snd (request_locality d ts n e))
          \<lparr>bus_ops := bus_ops (snd (request_locality d ts n e)) @ [Assert_command_ready]\<rparr>)"

definition recv_fifo_entry :: "sim_tpm \<Rightarrow> timeout_set \<Rightarrow> bool \<Rightarrow> engine \<Rightarrow> bool \<times> engine" where
  "recv_fifo_entry d ts slow e =
     wait_for (avail_at d) (if slow then timeout_d ts else timeout_c ts) e"

text \<open>What the engine has added to the access log between two states.\<close>

definition new_ops :: "engine \<Rightarrow> engine \<Rightarrow> bus_op list" where
  "new_ops e e' = drop (length (bus_ops e)) (bus_ops e')"

text \<open>
  An idle engine, a Timeout Set of a few polls per wait, a device that is willing but
  whose burst count is stuck at 0, one that advertises bursts of 0, 2, 3, 0, 2, 3, ...
  and answers with 8 bytes, and one that answers with a header declaring 3 bytes.
\<close>

definition idle :: engine where
  "idle = \<lparr> reads = 0, bus_ops = [], taken = 0, locality = None \<rparr>"

definition short_timeouts :: timeout_set where
  "short_timeouts =
     \<lparr> timeout_a = 3, timeout_b = 3, timeout_c = 3, timeout_d = 5, timeout_burst = 3 \<rparr>"

definition stuck_tpm :: sim_tpm where
  "stuck_tpm =
     \<lparr> burst_at = (\<lambda>k. 0), ready_at = (\<lambda>k. True), avail_at = (\<lambda>k. True),
       active_at = (\<lambda>k. True), response = [0, 0xC4, 0, 0, 0, 8, 1, 2] \<rparr>"

definition bursty_tpm :: sim_tpm where
  "bursty_tpm =
     \<lparr> burst_at = (\<lambda>k. if k mod 3 = 0 then 0 else if k mod 3 = 1 then 2 else 3),
       ready_at = (\<lambda>k. True), avail_at = (\<lambda>k. True), active_at = (\<lambda>k. True),
       response = [0, 0xC4, 0, 0, 0, 8, 1, 2] \<rparr>"

definition malformed_tpm :: sim_tpm where
  "malformed_tpm = bursty_tpm\<lparr>response := [0, 0xC4, 0, 0, 0, 3, 1, 2]\<rparr>"

subsection \<open>A concrete machine\<close>

text \<open>
  The module right after loading (\<open>interrupts\<close> is initialised to true, \<open>itpm\<close>, \<open>force\<close>
  and \<open>pdev\<close> to zero; \<open>force\<close> is the load-time parameter), a build with PNP and ACPI, a
  kernel in which every call succeeds, and devices to attach: a PNP device without an
  IRQ line and one with IRQ 5.
\<close>

definition loaded :: "bool \<Rightarrow> world" where
  "loaded forced =
     \<lparr> interrupts = True, itpm = False, force = forced, pdev = 0, klog = [],
       registered = {},
       chips = (\<lambda>c. \<lparr> vendor_iobase = 0, vendor_priv = 0, acpi_dev_handle = 0 \<rparr>),
       drvdata = (\<lambda>d. 0) \<rparr>"

definition pc_config :: config where
  "pc_config =
     \<lparr> CONFIG_PNP = True, CONFIG_ACPI = True, TIS_MEM_BASE = 0xFED40000,
       TIS_MEM_LEN = 0x5000, TPM2_START_FIFO = 6, irq = 0 \<rparr>"

definition good_kernel :: kernel where
  "good_kernel = \<lparr> kret = (\<lambda>log. 0), kptr = (\<lambda>log. 0x1000) \<rparr>"

text \<open>The same kernel, except that the common initialization fails with \<open>-EIO\<close>.\<close>

definition failing_kernel :: kernel where
  "failing_kernel =
     \<lparr> kret = (\<lambda>log. case last log of Tpm_tis_init_generic d c i n t \<Rightarrow> - 5 | _ \<Rightarrow> 0),
       kptr = (\<lambda>log. 0x1000) \<rparr>"

definition pnp_without_irq :: pnp_dev where
  "pnp_without_irq =
     \<lparr> pnp_device = 1, pnp_mem_start = 0xFED40000, pnp_mem_len = 0x5000,
       pnp_irq_valid = False, pnp_irq = 0, pnp_acpi_device = None \<rparr>"

text \<open>An ACPI TPM 2.0 FIFO device that lists a memory window and no interrupt.\<close>

definition acpi_without_irq :: acpi_device where
  "acpi_without_irq =
     \<lparr> acpi_dev = 3, pnp_ids = [''MSFT0101''], handle = 7, tpm2_start_method = Some 6,
       resources = [Ares_memory 0xFED40000 0xFED44FFF], get_resources_ret = 1 \<rparr>"

definition pnp_with_irq :: pnp_dev where
  "pnp_with_irq =
     \<lparr> pnp_device = 2, pnp_mem_start = 0xFED50000, pnp_mem_len = 0x5000,
       pnp_irq_valid = True, pnp_irq = 5, pnp_acpi_device = None \<rparr>"

section \<open>Properties\<close>

subsection \<open>The register accessors\<close>

declare read_loop.simps [simp del] write_loop.simps [simp del]

lemma read_loop_log:
  "snd (read_loop d a i len result log) = log @ replicate (len - i) (IoRead8 a)"
proof (induction d a i len result log rule: read_loop.induct)
  case (1 d a i len result log)
  show ?case
  proof (cases "i < len")
    case True
    then have step: "len - i = Suc (len - (i + 1))" by simp
    have "snd (read_loop d a (i + 1) len (result(i := in8 d log a)) (log @ [IoRead8 a])) =
          (log @ [IoRead8 a]) @ replicate (len - (i + 1)) (IoRead8 a)"
      by (rule "1.IH"[OF True refl]) (simp add: ioread8_def)
    with True show ?thesis
      by (subst read_loop.simps) (simp add: ioread8_def step)
  next
    case False
    then show ?thesis by (subst read_loop.simps) simp
  qed
qed

lemma write_loop_log:
  "write_loop a i len val log = log @ map (\<lambda>j. IoWrite8 a (val j)) [i..<len]"
proof (induction a i len val log rule: write_loop.induct)
  case (1 a i len val log)
  show ?case
  proof (cases "i < len")
    case True
    with "1.IH"[OF True] show ?thesis
      by (subst write_loop.simps) (simp add: iowrite8_def upt_conv_Cons)
  next
    case False
    then show ?thesis by (subst write_loop.simps) simp
  qed
qed

lemma read_loop_result:
  "fst (read_loop d a i len result log) =
     (\<lambda>j. if i \<le> j \<and> j < len then in8 d (log @ replicate (j - i) (IoRead8 a)) a else result j)"
proof (induction d a i len result log rule: read_loop.induct)
  case (1 d a i len result log)
  show ?case
  proof (cases "i < len")
    case True
    have ih: "fst (read_loop d a (i + 1) len (result(i := in8 d log a)) (log @ [IoRead8 a])) =
          (\<lambda>j. if i + 1 \<le> j \<and> j < len
                then in8 d ((log @ [IoRead8 a]) @ replicate (j - (i + 1)) (IoRead8 a)) a
                else (result(i := in8 d log a)) j)"
      by (rule "1.IH"[OF True refl]) (simp add: ioread8_def)
    have shift: "log @ IoRead8 a # replicate (j - Suc i) (IoRead8 a) =
                 log @ replicate (j - i) (IoRead8 a)" if "Suc i \<le> j" for j
    proof -
      from that have "j - i = Suc (j - Suc i)" by simp
      then show ?thesis by simp
    qed
    have "fst (read_loop d a i len result log) =
          fst (read_loop d a (i + 1) len (result(i := in8 d log a)) (log @ [IoRead8 a]))"
      using True by (subst read_loop.simps) (simp add: ioread8_def)
    also have "\<dots> = (\<lambda>j. if i \<le> j \<and> j < len
                          then in8 d (log @ replicate (j - i) (IoRead8 a)) a else result j)"
      unfolding ih using True by (auto simp: fun_eq_iff shift)
    finally show ?thesis .
  next
    case False
    then show ?thesis by (subst read_loop.simps) (auto simp: fun_eq_iff)
  qed
qed

text \<open>
  C4. A register access of width 4 is exactly one 32-bit bus cycle, of width 2 exactly one
  16-bit cycle, of width 1 and length 1 exactly one 8-bit cycle. Every other combination
  of \<open>size\<close> and \<open>len\<close> is \<open>len\<close> successive single-byte cycles, all at the one register
  address \<open>iobase + addr\<close>, taken in index order: the \<open>j\<close>-th byte read lands in
  \<open>result[j]\<close>, and the \<open>j\<close>-th cycle written carries \<open>value[j]\<close>. Nothing else reaches the
  bus, and nothing is cached: the log grows by exactly these cycles on every call.
\<close>

theorem register_access_widths:
  "snd (read_mem_bytes d chip addr len sz result log) =
     log @ (if sz = 4 then [IoRead32 (vendor_iobase chip + unat addr)]
            else if sz = 2 then [IoRead16 (vendor_iobase chip + unat addr)]
            else if sz = 1 \<and> len = 1 then [IoRead8 (vendor_iobase chip + unat addr)]
            else replicate (unat len) (IoRead8 (vendor_iobase chip + unat addr)))
   \<and> fst (read_mem_bytes d chip addr len sz result log) =
     (if sz = 4 then store_u32 result (in32 d log (vendor_iobase chip + unat addr))
      else if sz = 2 then store_u16 result (in16 d log (vendor_iobase chip + unat addr))
      else if sz = 1 \<and> len = 1 then result(0 := in8 d log (vendor_iobase chip + unat addr))
      else (\<lambda>j. if j < unat len
                then in8 d (log @ replicate j (IoRead8 (vendor_iobase chip + unat addr)))
                       (vendor_iobase chip + unat addr)
                else result j))
   \<and> write_mem_bytes chip addr len sz val log =
     log @ (if sz = 4 then [IoWrite32 (vendor_iobase chip + unat addr) (load_u32 val)]
            else if sz = 2 then [IoWrite16 (vendor_iobase chip + unat addr) (load_u16 val)]
            else if sz = 1 \<and> len = 1 then [IoWrite8 (vendor_iobase chip + unat addr) (val 0)]
            else map (\<lambda>j. IoWrite8 (vendor_iobase chip + unat addr) (val j)) [0..<unat len])"
proof -
  let ?a = "vendor_iobase chip + unat addr"
  have r_log: "snd (read_loop d ?a 0 (unat len) result log) = log @ replicate (unat len) (IoRead8 ?a)"
    using read_loop_log[of d ?a 0 "unat len" result log] by simp
  have r_res: "fst (read_loop d ?a 0 (unat len) result log) =
      (\<lambda>j. if j < unat len then in8 d (log @ replicate j (IoRead8 ?a)) ?a else result j)"
    by (simp add: read_loop_result cong: if_cong)
  have w_log: "write_loop ?a 0 (unat len) val log = log @ map (\<lambda>j. IoWrite8 ?a (val j)) [0..<unat len]"
    by (rule write_loop_log)
  have rd: "snd (read_mem_bytes d chip addr len sz result log) =
     log @ (if sz = 4 then [IoRead32 ?a] else if sz = 2 then [IoRead16 ?a]
            else if sz = 1 \<and> len = 1 then [IoRead8 ?a] else replicate (unat len) (IoRead8 ?a))"
    by (simp add: read_mem_bytes_def ioread32_def ioread16_def ioread8_def r_log)
  have res: "fst (read_mem_bytes d chip addr len sz result log) =
     (if sz = 4 then store_u32 result (in32 d log ?a)
      else if sz = 2 then store_u16 result (in16 d log ?a)
      else if sz = 1 \<and> len = 1 then result(0 := in8 d log ?a)
      else (\<lambda>j. if j < unat len then in8 d (log @ replicate j (IoRead8 ?a)) ?a else result j))"
    by (simp add: read_mem_bytes_def ioread32_def ioread16_def ioread8_def r_res)
  have wr: "write_mem_bytes chip addr len sz val log =
     log @ (if sz = 4 then [IoWrite32 ?a (load_u32 val)]
            else if sz = 2 then [IoWrite16 ?a (load_u16 val)]
            else if sz = 1 \<and> len = 1 then [IoWrite8 ?a (val 0)]
            else map (\<lambda>j. IoWrite8 ?a (val j)) [0..<unat len])"
    by (simp add: write_mem_bytes_def iowrite32_def iowrite16_def iowrite8_def w_log)
  from rd res wr show ?thesis by simp
qed

subsection \<open>The completion test\<close>

lemma bit_0x90: "bit (0x90 :: u8) n = (n = 4 \<or> n = 7)"
proof (cases "n < 8")
  case True
  then consider "n = 0" | "n = 1" | "n = 2" | "n = 3" | "n = 4" | "n = 5" | "n = 6" | "n = 7"
    by linarith
  then show ?thesis by cases simp_all
next
  case False
  have "\<not> bit (0x90 :: u8) n"
  proof
    assume "bit (0x90 :: u8) n"
    then have "n < LENGTH(8)" by (rule bit_imp_le_length)
    with False show False by simp
  qed
  with False show ?thesis by simp
qed

lemma and_0x90_iff: "(s AND (0x90 :: u8) = 0x90) = (bit s 4 \<and> bit s 7)"
proof
  assume e: "s AND 0x90 = 0x90"
  have "bit (s AND 0x90) 4" "bit (s AND 0x90) 7" unfolding e by (simp_all add: bit_0x90)
  then show "bit s 4 \<and> bit s 7" by (simp add: bit_and_iff)
next
  assume b: "bit s 4 \<and> bit s 7"
  show "s AND 0x90 = 0x90"
  proof (intro bit_word_eqI)
    fix n assume "n < LENGTH(8)"
    show "bit (s AND 0x90) n = bit (0x90 :: u8) n"
      using b unfolding bit_and_iff bit_0x90 by auto
  qed
qed

text \<open>
  C10. The table asks for both \<open>DATA_AVAIL\<close> and \<open>VALID\<close>: a status byte \<open>s\<close> counts as
  completion exactly when \<open>s\<close> masked with \<open>DATA_AVAIL | VALID\<close> equals \<open>DATA_AVAIL | VALID\<close>,
  that is when bits 4 and 7 are both set. A status with \<open>VALID\<close> cleared is never a
  completion, whatever its other bits; \<open>DATA_AVAIL\<close> alone is not one.
\<close>

theorem req_complete_needs_data_avail_and_valid:
  "req_complete_mask tpm_tis = (TPM_STS_DATA_AVAIL OR TPM_STS_VALID)
   \<and> req_complete_val tpm_tis = (TPM_STS_DATA_AVAIL OR TPM_STS_VALID)
   \<and> req_complete tpm_tis s =
       (s AND (TPM_STS_DATA_AVAIL OR TPM_STS_VALID) = (TPM_STS_DATA_AVAIL OR TPM_STS_VALID))
   \<and> req_complete tpm_tis s = (bit s 4 \<and> bit s 7)
   \<and> \<not> req_complete tpm_tis (s AND NOT TPM_STS_VALID)
   \<and> \<not> req_complete tpm_tis TPM_STS_DATA_AVAIL"
proof -
  have m: "TPM_STS_DATA_AVAIL OR TPM_STS_VALID = (0x90 :: u8)"
    by (simp add: TPM_STS_DATA_AVAIL_def TPM_STS_VALID_def)
  have fields: "req_complete_mask tpm_tis = (TPM_STS_DATA_AVAIL OR TPM_STS_VALID)"
    "req_complete_val tpm_tis = (TPM_STS_DATA_AVAIL OR TPM_STS_VALID)"
    by (simp_all add: tpm_tis_def)
  have c: "req_complete tpm_tis s = (s AND 0x90 = 0x90)" for s
    unfolding req_complete_def fields m ..
  have nv: "\<not> bit (s AND NOT TPM_STS_VALID) 7"
    by (simp add: bit_and_iff bit_not_iff TPM_STS_VALID_def)
  have da: "\<not> bit TPM_STS_DATA_AVAIL 7"
    by (simp add: TPM_STS_DATA_AVAIL_def)
  have "req_complete tpm_tis s =
       (s AND (TPM_STS_DATA_AVAIL OR TPM_STS_VALID) = (TPM_STS_DATA_AVAIL OR TPM_STS_VALID))"
    unfolding c m ..
  moreover have "req_complete tpm_tis s = (bit s 4 \<and> bit s 7)"
    unfolding c by (rule and_0x90_iff)
  moreover have "\<not> req_complete tpm_tis (s AND NOT TPM_STS_VALID)"
    unfolding c and_0x90_iff using nv by simp
  moreover have "\<not> req_complete tpm_tis TPM_STS_DATA_AVAIL"
    unfolding c and_0x90_iff using da by simp
  ultimately show ?thesis
    using fields by blast
qed

subsection \<open>The attach paths and the module flags\<close>

lemma flags_passed_append: "flags_passed (xs @ ys) = flags_passed xs @ flags_passed ys"
  by (induction xs rule: flags_passed.induct) simp_all

lemma tpm_tis_init_frame:
  "interrupts (snd (tpm_tis_init cfg k dev info h w)) = interrupts w"
  "itpm (snd (tpm_tis_init cfg k dev info h w)) = itpm w"
  "force (snd (tpm_tis_init cfg k dev info h w)) = force w"
  "pdev (snd (tpm_tis_init cfg k dev info h w)) = pdev w"
  "registered (snd (tpm_tis_init cfg k dev info h w)) = registered w"
  by (simp_all add: tpm_tis_init_def tpmm_chip_alloc_def kcall_ptr_def kcall_ret_def Let_def)

lemma tpm_tis_init_new_calls:
  "flags_passed (drop (length (klog w)) (klog (snd (tpm_tis_init cfg k dev info h w)))) = []
   \<or> flags_passed (drop (length (klog w)) (klog (snd (tpm_tis_init cfg k dev info h w)))) =
       [(interrupts w, itpm w)]"
  by (simp add: tpm_tis_init_def tpmm_chip_alloc_def kcall_ptr_def kcall_ret_def Let_def)

lemma tpm_tis_init_prefix:
  "take (length (klog w)) (klog (snd (tpm_tis_init cfg k dev info h w))) = klog w"
  by (simp add: tpm_tis_init_def tpmm_chip_alloc_def kcall_ptr_def kcall_ret_def Let_def)

lemma tpm_tis_init_prefix':
  "klog w2 = klog w \<Longrightarrow>
   take (length (klog w)) (klog (snd (tpm_tis_init cfg k dev info h w2))) = klog w"
  using tpm_tis_init_prefix[of w2 cfg k dev info h] by simp

lemma tpm_tis_init_new_calls':
  assumes "klog w2 = klog w"
  shows "flags_passed (drop (length (klog w)) (klog (snd (tpm_tis_init cfg k dev info h w2)))) = []
   \<or> flags_passed (drop (length (klog w)) (klog (snd (tpm_tis_init cfg k dev info h w2)))) =
       [(interrupts w2, itpm w2)]"
  using tpm_tis_init_new_calls[of w2 cfg k dev info h] assms by simp

lemma pnp_init_state:
  "interrupts (snd (tpm_tis_pnp_init cfg k pd w)) = (interrupts w \<and> pnp_irq_valid pd)"
  "itpm (snd (tpm_tis_pnp_init cfg k pd w)) =
     (itpm w \<or> (CONFIG_ACPI cfg \<and> (case pnp_acpi_device pd of None \<Rightarrow> False | Some a \<Rightarrow> is_itpm cfg a \<noteq> 0)))"
  "force (snd (tpm_tis_pnp_init cfg k pd w)) = force w"
  by (auto simp add: tpm_tis_pnp_init_def tpm_tis_init_frame Let_def split: option.splits)

lemma pnp_init_prefix:
  "take (length (klog w)) (klog (snd (tpm_tis_pnp_init cfg k pd w))) = klog w"
  unfolding tpm_tis_pnp_init_def Let_def
  by (rule tpm_tis_init_prefix') (simp split: option.splits)

lemma pnp_init_new_calls:
  "flags_passed (drop (length (klog w)) (klog (snd (tpm_tis_pnp_init cfg k pd w)))) = []
   \<or> flags_passed (drop (length (klog w)) (klog (snd (tpm_tis_pnp_init cfg k pd w)))) =
       [(interrupts (snd (tpm_tis_pnp_init cfg k pd w)), itpm (snd (tpm_tis_pnp_init cfg k pd w)))]"
proof -
  define w2 where "w2 = (let w1 = (if pnp_irq_valid pd then w else w\<lparr>interrupts := False\<rparr>) in
     (if CONFIG_ACPI cfg then
                  (case pnp_acpi_device pd of
                     None \<Rightarrow> w1
                   | Some a \<Rightarrow> if is_itpm cfg a \<noteq> 0 then w1\<lparr>itpm := True\<rparr> else w1)
                else w1))"
  have l: "klog w2 = klog w" by (simp add: w2_def Let_def split: option.splits)
  obtain info h where e: "tpm_tis_pnp_init cfg k pd w = tpm_tis_init cfg k (pnp_device pd) info h w2"
    by (simp add: tpm_tis_pnp_init_def w2_def Let_def)
  show ?thesis
    unfolding e tpm_tis_init_frame by (rule tpm_tis_init_new_calls'[OF l])
qed

lemma acpi_init_state:
  "interrupts (snd (tpm_tis_acpi_init cfg k a w)) =
     (interrupts w \<and>
      (is_fifo cfg a = 0 \<or> get_resources_ret a < 0
       \<or> info_irq (snd (acpi_dev_get_resources a (tis_default_info cfg))) \<noteq> 0))"
  "itpm (snd (tpm_tis_acpi_init cfg k a w)) =
     (itpm w \<or> (is_fifo cfg a \<noteq> 0 \<and> 0 \<le> get_resources_ret a \<and> is_itpm cfg a \<noteq> 0))"
  "force (snd (tpm_tis_acpi_init cfg k a w)) = force w"
  by (auto simp add: tpm_tis_acpi_init_def tpm_tis_init_frame Let_def acpi_dev_get_resources_def)

lemma acpi_init_prefix:
  "take (length (klog w)) (klog (snd (tpm_tis_acpi_init cfg k a w))) = klog w"
  unfolding tpm_tis_acpi_init_def Let_def
  by (auto simp: tpm_tis_init_prefix' split: prod.splits)

lemma acpi_init_new_calls:
  "flags_passed (drop (length (klog w)) (klog (snd (tpm_tis_acpi_init cfg k a w)))) = []
   \<or> flags_passed (drop (length (klog w)) (klog (snd (tpm_tis_acpi_init cfg k a w)))) =
       [(interrupts (snd (tpm_tis_acpi_init cfg k a w)), itpm (snd (tpm_tis_acpi_init cfg k a w)))]"
proof (cases "is_fifo cfg a = 0 \<or> get_resources_ret a < 0")
  case True
  then have "snd (tpm_tis_acpi_init cfg k a w) = w"
    by (auto simp: tpm_tis_acpi_init_def acpi_dev_get_resources_def)
  then show ?thesis by simp
next
  case False
  define w2 where "w2 = (let w1 = (if info_irq (snd (acpi_dev_get_resources a (tis_default_info cfg))) = 0 then w\<lparr>interrupts := False\<rparr> else w) in
              (if is_itpm cfg a \<noteq> 0 then w1\<lparr>itpm := True\<rparr> else w1))"
  have l: "klog w2 = klog w" by (simp add: w2_def Let_def)
  obtain info h where e: "tpm_tis_acpi_init cfg k a w = tpm_tis_init cfg k (acpi_dev a) info h w2"
    using False by (simp add: tpm_tis_acpi_init_def w2_def Let_def acpi_dev_get_resources_def)
  show ?thesis
    unfolding e tpm_tis_init_frame by (rule tpm_tis_init_new_calls'[OF l])
qed


text \<open>
  C3, as the code has it. \<open>interrupts\<close> and \<open>itpm\<close> are variables of the module, shared
  by every device, and the attach paths write to them: attaching a device without a
  valid IRQ clears \<open>interrupts\<close>, attaching an iTPM sets \<open>itpm\<close>, and the new value stays
  for every later attach; \<open>force\<close> is never written. Each attach hands the values current
  at that moment to the common initialization, by value. The log only grows, so what was
  handed over for a device attached earlier is not touched by a later attach.
\<close>

theorem flags_are_module_wide:
  "interrupts (snd (tpm_tis_pnp_init cfg k pd w)) = (interrupts w \<and> pnp_irq_valid pd)
   \<and> itpm (snd (tpm_tis_pnp_init cfg k pd w)) =
       (itpm w \<or> (CONFIG_ACPI cfg \<and>
          (case pnp_acpi_device pd of None \<Rightarrow> False | Some a \<Rightarrow> is_itpm cfg a \<noteq> 0)))
   \<and> force (snd (tpm_tis_pnp_init cfg k pd w)) = force w
   \<and> take (length (klog w)) (klog (snd (tpm_tis_pnp_init cfg k pd w))) = klog w
   \<and> (flags_passed (drop (length (klog w)) (klog (snd (tpm_tis_pnp_init cfg k pd w)))) = []
      \<or> flags_passed (drop (length (klog w)) (klog (snd (tpm_tis_pnp_init cfg k pd w)))) =
          [(interrupts (snd (tpm_tis_pnp_init cfg k pd w)),
            itpm (snd (tpm_tis_pnp_init cfg k pd w)))])
   \<and> interrupts (snd (tpm_tis_acpi_init cfg k a w)) =
       (interrupts w \<and>
        (is_fifo cfg a = 0 \<or> get_resources_ret a < 0
         \<or> info_irq (snd (acpi_dev_get_resources a (tis_default_info cfg))) \<noteq> 0))
   \<and> itpm (snd (tpm_tis_acpi_init cfg k a w)) =
       (itpm w \<or> (is_fifo cfg a \<noteq> 0 \<and> 0 \<le> get_resources_ret a \<and> is_itpm cfg a \<noteq> 0))
   \<and> force (snd (tpm_tis_acpi_init cfg k a w)) = force w
   \<and> take (length (klog w)) (klog (snd (tpm_tis_acpi_init cfg k a w))) = klog w
   \<and> (flags_passed (drop (length (klog w)) (klog (snd (tpm_tis_acpi_init cfg k a w)))) = []
      \<or> flags_passed (drop (length (klog w)) (klog (snd (tpm_tis_acpi_init cfg k a w)))) =
          [(interrupts (snd (tpm_tis_acpi_init cfg k a w)),
            itpm (snd (tpm_tis_acpi_init cfg k a w)))])"
  using pnp_init_state[of cfg k pd w] pnp_init_prefix[of w cfg k pd]
    pnp_init_new_calls[of w cfg k pd] acpi_init_state[of cfg k a w]
    acpi_init_prefix[of w cfg k a] acpi_init_new_calls[of w cfg k a]
  by blast

text \<open>
  C3 as stated fails. The PNP device with IRQ 5, attached to the freshly loaded module,
  is initialised with interrupts on. Attached after the device that has no IRQ line, the
  very same device is initialised with interrupts off.
\<close>

theorem flags_per_device_counterexample:
  "flags_passed_for (pnp_device pnp_with_irq)
     (klog (snd (tpm_tis_pnp_init pc_config good_kernel pnp_with_irq (loaded False)))) =
     [(True, False)]
   \<and> flags_passed_for (pnp_device pnp_with_irq)
     (klog (snd (tpm_tis_pnp_init pc_config good_kernel pnp_with_irq
        (snd (tpm_tis_pnp_init pc_config good_kernel pnp_without_irq (loaded False)))))) =
     [(False, False)]"
  by (simp add: tpm_tis_pnp_init_def tpm_tis_init_def tpmm_chip_alloc_def kcall_ptr_def kcall_ret_def Let_def
      pc_config_def good_kernel_def pnp_with_irq_def pnp_without_irq_def loaded_def
      tis_default_info_def IS_ERR_def)

lemma polling_flags:
  "list_all (\<lambda>(n, t). n = False \<and> (\<forall>usable. wait_strategy_of (make_context n t usable) = Polling))
     [(False, t)]"
  by (simp add: wait_strategy_of_def make_context_def)

text \<open>
  C5. When the enumerated device comes without a valid IRQ line (\<open>pnp_irq_valid\<close> fails,
  or the ACPI resource walk leaves \<open>tpm_info.irq\<close> at 0), the attach path clears
  \<open>interrupts\<close> before it calls the initialization: every call of the common
  initialization made by that attach is handed \<open>interrupts = false\<close>, and a context built
  from such a call waits by polling, whatever the hardware would have offered. On the
  ACPI path the flag is cleared once the device is accepted as a FIFO device and its
  resources have been read; the two earlier exits initialise nothing.
\<close>

theorem no_irq_line_disables_interrupts:
  "(\<not> pnp_irq_valid pd \<longrightarrow>
      interrupts (snd (tpm_tis_pnp_init cfg k pd w)) = False
      \<and> list_all (\<lambda>(n, t). n = False
             \<and> (\<forall>usable. wait_strategy_of (make_context n t usable) = Polling))
          (flags_passed (drop (length (klog w)) (klog (snd (tpm_tis_pnp_init cfg k pd w))))))
   \<and> (info_irq (snd (acpi_dev_get_resources a (tis_default_info cfg))) = 0 \<longrightarrow>
      interrupts (snd (tpm_tis_acpi_init cfg k a w')) =
        (interrupts w' \<and> (is_fifo cfg a = 0 \<or> get_resources_ret a < 0))
      \<and> list_all (\<lambda>(n, t). n = False
             \<and> (\<forall>usable. wait_strategy_of (make_context n t usable) = Polling))
          (flags_passed (drop (length (klog w')) (klog (snd (tpm_tis_acpi_init cfg k a w'))))))"
proof (intro conjI impI)
  assume h: "\<not> pnp_irq_valid pd"
  then show i: "interrupts (snd (tpm_tis_pnp_init cfg k pd w)) = False"
    by (simp add: pnp_init_state)
  show "list_all (\<lambda>(n, t). n = False
             \<and> (\<forall>usable. wait_strategy_of (make_context n t usable) = Polling))
          (flags_passed (drop (length (klog w)) (klog (snd (tpm_tis_pnp_init cfg k pd w)))))"
    using pnp_init_new_calls[of w cfg k pd] polling_flags unfolding i by auto
next
  assume h: "info_irq (snd (acpi_dev_get_resources a (tis_default_info cfg))) = 0"
  then show i: "interrupts (snd (tpm_tis_acpi_init cfg k a w')) =
        (interrupts w' \<and> (is_fifo cfg a = 0 \<or> get_resources_ret a < 0))"
    by (simp add: acpi_init_state)
  show "list_all (\<lambda>(n, t). n = False
             \<and> (\<forall>usable. wait_strategy_of (make_context n t usable) = Polling))
          (flags_passed (drop (length (klog w')) (klog (snd (tpm_tis_acpi_init cfg k a w')))))"
  proof (cases "is_fifo cfg a = 0 \<or> get_resources_ret a < 0")
    case True
    then have "snd (tpm_tis_acpi_init cfg k a w') = w'"
      by (auto simp: tpm_tis_acpi_init_def acpi_dev_get_resources_def)
    then show ?thesis by simp
  next
    case False
    with i have "interrupts (snd (tpm_tis_acpi_init cfg k a w')) = False" by simp
    then show ?thesis
      using acpi_init_new_calls[of w' cfg k a] polling_flags by auto
  qed
qed

theorem no_irq_line_disables_interrupts_witness:
  "\<not> pnp_irq_valid pnp_without_irq
   \<and> interrupts (loaded False) = True
   \<and> interrupts (snd (tpm_tis_pnp_init pc_config good_kernel pnp_without_irq (loaded False))) = False
   \<and> flags_passed (klog (snd (tpm_tis_pnp_init pc_config good_kernel pnp_without_irq (loaded False))))
       = [(False, False)]
   \<and> info_irq (snd (acpi_dev_get_resources acpi_without_irq (tis_default_info pc_config))) = 0
   \<and> interrupts (snd (tpm_tis_acpi_init pc_config good_kernel acpi_without_irq (loaded False))) = False
   \<and> flags_passed (klog (snd (tpm_tis_acpi_init pc_config good_kernel acpi_without_irq (loaded False))))
       = [(False, False)]"
  using no_irq_line_disables_interrupts[of pnp_without_irq pc_config good_kernel "loaded False"
      acpi_without_irq "loaded False"]
  by (simp add: tpm_tis_pnp_init_def tpm_tis_acpi_init_def tpm_tis_init_def tpmm_chip_alloc_def kcall_ptr_def
      kcall_ret_def Let_def pc_config_def good_kernel_def pnp_without_irq_def loaded_def
      tis_default_info_def IS_ERR_def acpi_without_irq_def acpi_dev_get_resources_def
      is_fifo_def is_itpm_def has_hid_def resource_size_def)


subsection \<open>Registration and release\<close>

lemma register_with_registered:
  "registered (snd (register_with k c r w)) \<subseteq> insert r (registered w)"
  "fst (register_with k c r w) \<noteq> 0 \<Longrightarrow> registered (snd (register_with k c r w)) = registered w"
  by (auto simp: register_with_def kcall_ret_def Let_def)

lemma init_tis_force_failure:
  "fst (init_tis_force cfg k w) \<noteq> 0 \<Longrightarrow>
   registered (snd (init_tis_force cfg k w)) \<subseteq> registered w"
  by (auto simp: init_tis_force_def platform_driver_register_def register_with_def
      platform_device_register_simple_def kcall_ret_def kcall_ptr_def Let_def
      platform_driver_unregister_def platform_device_unregister_def unregister_with_def
      kcall_void_def tpm_tis_init_frame case_prod_beta split: if_splits)

lemma init_tis_acpi_failure:
  "fst (init_tis_acpi cfg k w) \<noteq> 0 \<Longrightarrow>
   registered (snd (init_tis_acpi cfg k w)) \<subseteq> insert PnpDriver (registered w)"
  "fst (init_tis_acpi cfg k w) \<noteq> 0 \<Longrightarrow> force w \<or> \<not> CONFIG_PNP cfg \<Longrightarrow>
   registered (snd (init_tis_acpi cfg k w)) \<subseteq> registered w"
  using init_tis_force_failure[of cfg k w]
  by (auto simp: init_tis_acpi_def acpi_bus_register_driver_def register_with_def
      kcall_ret_def Let_def pnp_unregister_driver_def unregister_with_def kcall_void_def
      case_prod_beta split: if_splits)


lemma init_tis_failure:
  "fst (init_tis cfg k w) \<noteq> 0 \<Longrightarrow> registered (snd (init_tis cfg k w)) \<subseteq> registered w"
proof (cases "CONFIG_PNP cfg \<and> \<not> force w")
  case False
  then have e: "init_tis cfg k w = init_tis_acpi cfg k w" by (auto simp add: init_tis_def)
  assume "fst (init_tis cfg k w) \<noteq> 0"
  with False show ?thesis unfolding e by (intro init_tis_acpi_failure(2)) auto
next
  case True
  assume f: "fst (init_tis cfg k w) \<noteq> 0"
  let ?r = "pnp_register_driver k w"
  show ?thesis
  proof (cases "fst ?r = 0")
    case False
    with True have "init_tis cfg k w = ?r"
      by (simp add: init_tis_def case_prod_beta)
    with False show ?thesis
      by (simp add: pnp_register_driver_def register_with_registered(2))
  next
    case z: True
    with True have e: "init_tis cfg k w = init_tis_acpi cfg k (snd ?r)"
      by (simp add: init_tis_def case_prod_beta)
    have fr: "force (snd ?r) = force w"
      by (simp add: pnp_register_driver_def register_with_def kcall_ret_def case_prod_beta)
    have reg: "registered (snd ?r) = insert PnpDriver (registered w)"
      using z by (simp add: pnp_register_driver_def register_with_def kcall_ret_def case_prod_beta)
    have nf: "\<not> force (snd ?r)" using True fr by simp
    have cp: "CONFIG_PNP cfg" using True by simp
    let ?a = "acpi_bus_register_driver k (snd ?r)"
    show ?thesis
    proof (cases "CONFIG_ACPI cfg")
      case False
      with nf have "init_tis_acpi cfg k (snd ?r) = (0, snd ?r)" by (simp add: init_tis_acpi_def)
      with f e show ?thesis by simp
    next
      case ca: True
      show ?thesis
      proof (cases "fst ?a = 0")
        case True
        have "force (snd ?a) = force (snd ?r)"
          by (simp add: acpi_bus_register_driver_def register_with_def kcall_ret_def case_prod_beta)
        with nf ca True have "fst (init_tis_acpi cfg k (snd ?r)) = 0"
          by (simp add: init_tis_acpi_def case_prod_beta)
        with f e show ?thesis by simp
      next
        case False
        with nf ca cp have "snd (init_tis_acpi cfg k (snd ?r)) = pnp_unregister_driver (snd ?a)"
          by (simp add: init_tis_acpi_def case_prod_beta)
        moreover have "registered (snd ?a) = registered (snd ?r)"
          using False by (simp add: acpi_bus_register_driver_def register_with_registered(2))
        ultimately show ?thesis unfolding e
          by (auto simp: reg pnp_unregister_driver_def unregister_with_def kcall_void_def)
      qed
    qed
  qed
qed

lemma init_tis_forced: "force w \<Longrightarrow> init_tis cfg k w = init_tis_force cfg k w"
  by (simp add: init_tis_def init_tis_acpi_def)

lemma force_failure_path:
  assumes "force w" "0 \<le> fst (platform_driver_register k w)"
    "\<not> IS_ERR (pdev (force_attach_world k w))"
    "fst (tpm_tis_init cfg k (pdev (force_attach_world k w)) (tis_default_info cfg) 0
            (force_attach_world k w)) \<noteq> 0"
  shows "fst (init_tis cfg k w) =
           fst (tpm_tis_init cfg k (pdev (force_attach_world k w)) (tis_default_info cfg) 0
                  (force_attach_world k w))"
    and "klog (snd (init_tis cfg k w)) =
           klog (snd (tpm_tis_init cfg k (pdev (force_attach_world k w)) (tis_default_info cfg) 0
                  (force_attach_world k w)))
           @ [Platform_device_unregister (pdev (force_attach_world k w)),
              Platform_driver_unregister]"
    and "PlatformDevice \<notin> registered (snd (init_tis cfg k w))"
    and "PlatformDriver \<notin> registered (snd (init_tis cfg k w))"
  using assms unfolding init_tis_forced[OF assms(1)]
  by (simp_all add: init_tis_force_def force_attach_world_def case_prod_beta Let_def
      platform_driver_unregister_def platform_device_unregister_def unregister_with_def
      kcall_void_def tpm_tis_init_frame)

lemma remove_paths:
  "klog (tpm_tis_pnp_remove pd w) =
     klog w @ [Tpm_chip_unregister (drvdata w (pnp_device pd)),
               Tpm_tis_remove (drvdata w (pnp_device pd))]"
  "tpm_tis_acpi_remove a w = (0, w') \<Longrightarrow> klog w' =
     klog w @ [Tpm_chip_unregister (drvdata w (acpi_dev a)),
               Tpm_tis_remove (drvdata w (acpi_dev a))]"
  by (auto simp: tpm_tis_pnp_remove_def tpm_tis_acpi_remove_def tpm_tis_remove_def tpm_chip_unregister_def
      kcall_void_def Let_def)


lemma cleanup_forced:
  assumes "force w" "pdev w \<noteq> 0"
  shows "\<exists>w''. cleanup_tis cfg w = Inr w''
     \<and> klog w'' = klog w @ [Tpm_chip_unregister (drvdata w (pdev w)),
          Tpm_tis_remove (drvdata w (pdev w)), Platform_device_unregister (pdev w),
          Platform_driver_unregister]
     \<and> registered w'' = registered w - {PlatformDevice, PlatformDriver}"
  using assms
  by (auto simp: cleanup_tis_def Let_def platform_driver_unregister_def
      platform_device_unregister_def unregister_with_def kcall_void_def tpm_tis_remove_def
      tpm_chip_unregister_def)

lemma cleanup_buses:
  assumes "\<not> force w" "CONFIG_PNP cfg \<or> CONFIG_ACPI cfg"
  shows "\<exists>w''. cleanup_tis cfg w = Inr w''
     \<and> klog w'' = klog w @ (if CONFIG_ACPI cfg then [Acpi_bus_unregister_driver] else [])
                         @ (if CONFIG_PNP cfg then [Pnp_unregister_driver] else [])
     \<and> registered w'' = registered w - ((if CONFIG_ACPI cfg then {AcpiDriver} else {})
                                          \<union> (if CONFIG_PNP cfg then {PnpDriver} else {}))"
  using assms
  by (auto simp: cleanup_tis_def Let_def acpi_bus_unregister_driver_def
      pnp_unregister_driver_def unregister_with_def kcall_void_def)

lemma init_tis_force_state:
  "force (snd (init_tis_force cfg k w)) = force w"
  "registered (snd (init_tis_force cfg k w)) \<subseteq> registered w \<union> {PlatformDriver, PlatformDevice}"
  by (auto simp: init_tis_force_def platform_driver_register_def register_with_def
      platform_device_register_simple_def kcall_ret_def kcall_ptr_def Let_def
      platform_driver_unregister_def platform_device_unregister_def unregister_with_def
      kcall_void_def tpm_tis_init_frame case_prod_beta split: if_splits)

lemma init_tis_state:
  "force (snd (init_tis cfg k w)) = force w"
  "registered (snd (init_tis cfg k w)) \<subseteq> registered w \<union>
     (if force w then {PlatformDriver, PlatformDevice}
      else (if CONFIG_PNP cfg then {PnpDriver} else {}) \<union> (if CONFIG_ACPI cfg then {AcpiDriver} else {}))"
proof -
  show "force (snd (init_tis cfg k w)) = force w"
    by (cases "force w")
       (auto simp: init_tis_forced init_tis_force_state init_tis_def init_tis_acpi_def
          pnp_register_driver_def acpi_bus_register_driver_def register_with_def kcall_ret_def
          pnp_unregister_driver_def unregister_with_def kcall_void_def case_prod_beta Let_def)
  show "registered (snd (init_tis cfg k w)) \<subseteq> registered w \<union>
     (if force w then {PlatformDriver, PlatformDevice}
      else (if CONFIG_PNP cfg then {PnpDriver} else {}) \<union> (if CONFIG_ACPI cfg then {AcpiDriver} else {}))"
  proof (cases "force w")
    case True
    then show ?thesis using init_tis_force_state(2)[of cfg k w] by (simp add: init_tis_forced)
  next
    case False
    then show ?thesis
      by (auto simp: init_tis_def init_tis_acpi_def
          pnp_register_driver_def acpi_bus_register_driver_def register_with_def kcall_ret_def
          pnp_unregister_driver_def unregister_with_def kcall_void_def case_prod_beta Let_def
          split: if_splits)
  qed
qed

lemma attach_then_cleanup:
  assumes "registered w = {}" "cleanup_tis cfg (snd (init_tis cfg k w)) = Inr w''"
  shows "registered w'' = {}"
proof -
  let ?w = "snd (init_tis cfg k w)"
  note st = init_tis_state[of cfg k w]
  show ?thesis
  proof (cases "force w")
    case True
    with st(1) have f: "force ?w" by simp
    from assms(2) f have p: "pdev ?w \<noteq> 0" by (auto simp: cleanup_tis_def split: if_splits)
    from cleanup_forced[OF f p, of cfg] assms(2)
    have "registered w'' = registered ?w - {PlatformDevice, PlatformDriver}" by auto
    with st(2) True assms(1) show ?thesis by auto
  next
    case False
    with st(1) have f: "\<not> force ?w" by simp
    show ?thesis
    proof (cases "CONFIG_PNP cfg \<or> CONFIG_ACPI cfg")
      case True
      from cleanup_buses[OF f True] assms(2)
      have "registered w'' = registered ?w - ((if CONFIG_ACPI cfg then {AcpiDriver} else {})
                                          \<union> (if CONFIG_PNP cfg then {PnpDriver} else {}))" by auto
      with st(2) False assms(1) show ?thesis by (auto split: if_splits)
    next
      case c: False
      with st(2) False assms(1) have "registered ?w = {}" by auto
      with assms(2) c show ?thesis
        by (auto simp: cleanup_tis_def Let_def platform_driver_unregister_def
      platform_device_unregister_def unregister_with_def kcall_void_def tpm_tis_remove_def
      tpm_chip_unregister_def split: if_splits)
    qed
  qed
qed

lemma probes_register_nothing:
  "registered (snd (tpm_tis_pnp_init cfg k pd w)) = registered w"
  "registered (snd (tpm_tis_acpi_init cfg k a w)) = registered w"
  by (auto simp: tpm_tis_pnp_init_def tpm_tis_acpi_init_def tpm_tis_init_frame Let_def
      case_prod_beta split: option.splits)


text \<open>
  C9. Whatever \<open>init_tis\<close> registered is unregistered again on each of its failing
  exits: a failed \<open>init_tis\<close> leaves nothing registered that was not registered before.
  In force mode, when the common initialization fails, the platform device and then the
  platform driver are unregistered, after the initialization and as the last things
  done, and the initialization's error is what \<open>init_tis\<close> returns. Both remove callbacks
  unregister the chip and then run \<open>tpm_tis_remove\<close> on it, and so does \<open>cleanup_tis\<close> in
  force mode before it unregisters platform device and driver; without force it
  unregisters the ACPI and PNP drivers. After an attach from a clean state, a
  \<open>cleanup_tis\<close> that returns leaves nothing registered. The probe callbacks themselves
  register nothing: what they acquire is device-managed (\<open>devm_\<close>).
\<close>

theorem attach_and_teardown_release:
  "(fst (init_tis cfg k w) \<noteq> 0 \<longrightarrow> registered (snd (init_tis cfg k w)) \<subseteq> registered w)
   \<and> (force wa \<and> 0 \<le> fst (platform_driver_register ka wa)
        \<and> \<not> IS_ERR (pdev (force_attach_world ka wa))
        \<and> fst (tpm_tis_init cfg ka (pdev (force_attach_world ka wa)) (tis_default_info cfg) 0
                 (force_attach_world ka wa)) \<noteq> 0 \<longrightarrow>
        fst (init_tis cfg ka wa) =
          fst (tpm_tis_init cfg ka (pdev (force_attach_world ka wa)) (tis_default_info cfg) 0
                 (force_attach_world ka wa))
        \<and> klog (snd (init_tis cfg ka wa)) =
          klog (snd (tpm_tis_init cfg ka (pdev (force_attach_world ka wa)) (tis_default_info cfg)
                       0 (force_attach_world ka wa)))
          @ [Platform_device_unregister (pdev (force_attach_world ka wa)),
             Platform_driver_unregister]
        \<and> PlatformDevice \<notin> registered (snd (init_tis cfg ka wa))
        \<and> PlatformDriver \<notin> registered (snd (init_tis cfg ka wa)))
   \<and> klog (tpm_tis_pnp_remove pd wb) =
        klog wb @ [Tpm_chip_unregister (drvdata wb (pnp_device pd)),
                   Tpm_tis_remove (drvdata wb (pnp_device pd))]
   \<and> fst (tpm_tis_acpi_remove a wb) = 0
   \<and> klog (snd (tpm_tis_acpi_remove a wb)) =
        klog wb @ [Tpm_chip_unregister (drvdata wb (acpi_dev a)),
                   Tpm_tis_remove (drvdata wb (acpi_dev a))]
   \<and> (force wc \<and> pdev wc \<noteq> 0 \<longrightarrow>
        (\<exists>w''. cleanup_tis cfg wc = Inr w''
           \<and> klog w'' = klog wc @ [Tpm_chip_unregister (drvdata wc (pdev wc)),
                Tpm_tis_remove (drvdata wc (pdev wc)), Platform_device_unregister (pdev wc),
                Platform_driver_unregister]
           \<and> registered w'' = registered wc - {PlatformDevice, PlatformDriver}))
   \<and> (\<not> force wd \<and> (CONFIG_PNP cfg \<or> CONFIG_ACPI cfg) \<longrightarrow>
        (\<exists>w''. cleanup_tis cfg wd = Inr w''
           \<and> klog w'' = klog wd @ (if CONFIG_ACPI cfg then [Acpi_bus_unregister_driver] else [])
                                 @ (if CONFIG_PNP cfg then [Pnp_unregister_driver] else [])
           \<and> registered w'' = registered wd - ((if CONFIG_ACPI cfg then {AcpiDriver} else {})
                                                 \<union> (if CONFIG_PNP cfg then {PnpDriver} else {}))))
   \<and> (registered we = {} \<longrightarrow>
        (\<forall>w''. cleanup_tis cfg (snd (init_tis cfg ke we)) = Inr w'' \<longrightarrow> registered w'' = {}))
   \<and> registered (snd (tpm_tis_pnp_init cfg k pd w)) = registered w
   \<and> registered (snd (tpm_tis_acpi_init cfg k a w)) = registered w"
proof -
  have c1: "fst (init_tis cfg k w) \<noteq> 0 \<longrightarrow>
      registered (snd (init_tis cfg k w)) \<subseteq> registered w"
    by (rule impI) (rule init_tis_failure)
  have c2: "force wa \<and> 0 \<le> fst (platform_driver_register ka wa)
        \<and> \<not> IS_ERR (pdev (force_attach_world ka wa))
        \<and> fst (tpm_tis_init cfg ka (pdev (force_attach_world ka wa)) (tis_default_info cfg) 0
                 (force_attach_world ka wa)) \<noteq> 0 \<longrightarrow>
        fst (init_tis cfg ka wa) =
          fst (tpm_tis_init cfg ka (pdev (force_attach_world ka wa)) (tis_default_info cfg) 0
                 (force_attach_world ka wa))
        \<and> klog (snd (init_tis cfg ka wa)) =
          klog (snd (tpm_tis_init cfg ka (pdev (force_attach_world ka wa)) (tis_default_info cfg)
                       0 (force_attach_world ka wa)))
          @ [Platform_device_unregister (pdev (force_attach_world ka wa)),
             Platform_driver_unregister]
        \<and> PlatformDevice \<notin> registered (snd (init_tis cfg ka wa))
        \<and> PlatformDriver \<notin> registered (snd (init_tis cfg ka wa))"
  proof (intro impI, elim conjE)
    assume h: "force wa" "0 \<le> fst (platform_driver_register ka wa)"
      "\<not> IS_ERR (pdev (force_attach_world ka wa))"
      "fst (tpm_tis_init cfg ka (pdev (force_attach_world ka wa)) (tis_default_info cfg) 0
                 (force_attach_world ka wa)) \<noteq> 0"
    show "fst (init_tis cfg ka wa) =
          fst (tpm_tis_init cfg ka (pdev (force_attach_world ka wa)) (tis_default_info cfg) 0
                 (force_attach_world ka wa))
        \<and> klog (snd (init_tis cfg ka wa)) =
          klog (snd (tpm_tis_init cfg ka (pdev (force_attach_world ka wa)) (tis_default_info cfg)
                       0 (force_attach_world ka wa)))
          @ [Platform_device_unregister (pdev (force_attach_world ka wa)),
             Platform_driver_unregister]
        \<and> PlatformDevice \<notin> registered (snd (init_tis cfg ka wa))
        \<and> PlatformDriver \<notin> registered (snd (init_tis cfg ka wa))"
      by (intro conjI) (rule force_failure_path[OF h])+
  qed
  have c3: "klog (tpm_tis_pnp_remove pd wb) =
        klog wb @ [Tpm_chip_unregister (drvdata wb (pnp_device pd)),
                   Tpm_tis_remove (drvdata wb (pnp_device pd))]"
    by (rule remove_paths(1))
  have c4: "fst (tpm_tis_acpi_remove a wb) = 0"
    by (simp add: tpm_tis_acpi_remove_def Let_def)
  have c5: "klog (snd (tpm_tis_acpi_remove a wb)) =
        klog wb @ [Tpm_chip_unregister (drvdata wb (acpi_dev a)),
                   Tpm_tis_remove (drvdata wb (acpi_dev a))]"
    by (simp add: tpm_tis_acpi_remove_def tpm_tis_remove_def tpm_chip_unregister_def
        kcall_void_def Let_def)
  have c6: "force wc \<and> pdev wc \<noteq> 0 \<longrightarrow>
        (\<exists>w''. cleanup_tis cfg wc = Inr w''
           \<and> klog w'' = klog wc @ [Tpm_chip_unregister (drvdata wc (pdev wc)),
                Tpm_tis_remove (drvdata wc (pdev wc)), Platform_device_unregister (pdev wc),
                Platform_driver_unregister]
           \<and> registered w'' = registered wc - {PlatformDevice, PlatformDriver})"
    by (intro impI, elim conjE) (rule cleanup_forced)
  have c7: "\<not> force wd \<and> (CONFIG_PNP cfg \<or> CONFIG_ACPI cfg) \<longrightarrow>
        (\<exists>w''. cleanup_tis cfg wd = Inr w''
           \<and> klog w'' = klog wd @ (if CONFIG_ACPI cfg then [Acpi_bus_unregister_driver] else [])
                                 @ (if CONFIG_PNP cfg then [Pnp_unregister_driver] else [])
           \<and> registered w'' = registered wd - ((if CONFIG_ACPI cfg then {AcpiDriver} else {})
                                                 \<union> (if CONFIG_PNP cfg then {PnpDriver} else {})))"
    by (intro impI, elim conjE) (rule cleanup_buses)
  have c8: "registered we = {} \<longrightarrow>
        (\<forall>w''. cleanup_tis cfg (snd (init_tis cfg ke we)) = Inr w'' \<longrightarrow> registered w'' = {})"
    by (intro impI allI) (rule attach_then_cleanup)
  have c9: "registered (snd (tpm_tis_pnp_init cfg k pd w)) = registered w"
    by (rule probes_register_nothing(1))
  have c10: "registered (snd (tpm_tis_acpi_init cfg k a w)) = registered w"
    by (rule probes_register_nothing(2))
  show ?thesis
    by (intro conjI) (rule c1 c2 c3 c4 c5 c6 c7 c8 c9 c10)+
qed

lemmas glue_eval =
  init_tis_def init_tis_acpi_def init_tis_force_def force_attach_world_def
  pnp_register_driver_def acpi_bus_register_driver_def platform_driver_register_def
  platform_device_register_simple_def register_with_def
  platform_driver_unregister_def platform_device_unregister_def unregister_with_def
  pnp_unregister_driver_def acpi_bus_unregister_driver_def
  tpm_tis_init_def tpmm_chip_alloc_def kcall_ptr_def kcall_ret_def kcall_void_def Let_def
  pc_config_def good_kernel_def failing_kernel_def loaded_def
  tis_default_info_def IS_ERR_def cleanup_tis_def tpm_tis_remove_def tpm_chip_unregister_def
  ENOMEM_def EIO_def PTR_ERR_def

text \<open>
  The forced attach against a kernel whose common initialization fails with \<open>-EIO\<close>, and
  the forced attach that succeeds, followed by \<open>cleanup_tis\<close>.
\<close>

theorem attach_and_teardown_release_witness:
  "force (loaded True)
   \<and> fst (init_tis pc_config failing_kernel (loaded True)) = - 5
   \<and> klog (snd (init_tis pc_config failing_kernel (loaded True))) =
       [Platform_driver_register, Platform_device_register_simple, Devm_kzalloc 0x1000,
        Tpmm_chip_alloc 0x1000, Devm_ioremap 0x1000 0xFED40000 0x5000,
        Tpm_tis_init_generic 0x1000 0x1000 0 True False,
        Platform_device_unregister 0x1000, Platform_driver_unregister]
   \<and> registered (snd (init_tis pc_config failing_kernel (loaded True))) = {}
   \<and> (\<exists>w''. cleanup_tis pc_config (snd (init_tis pc_config good_kernel (loaded True))) = Inr w''
         \<and> registered w'' = {})"
proof -
  note inst = attach_and_teardown_release[where cfg = pc_config and k = failing_kernel
      and w = "loaded True" and wa = "loaded True" and ka = failing_kernel
      and wc = "snd (init_tis pc_config good_kernel (loaded True))"
      and we = "loaded True" and ke = good_kernel]
  have f: "force (loaded True)" by (simp add: loaded_def)
  have r0: "registered (loaded True) = {}" by (simp add: loaded_def)
  have h1: "0 \<le> fst (platform_driver_register failing_kernel (loaded True))"
    by (simp add: glue_eval)
  have h2: "\<not> IS_ERR (pdev (force_attach_world failing_kernel (loaded True)))"
    by (simp add: glue_eval)
  have h3: "fst (tpm_tis_init pc_config failing_kernel
               (pdev (force_attach_world failing_kernel (loaded True)))
               (tis_default_info pc_config) 0
               (force_attach_world failing_kernel (loaded True))) = - 5"
    by (simp add: glue_eval)
  have l3: "klog (snd (tpm_tis_init pc_config failing_kernel
               (pdev (force_attach_world failing_kernel (loaded True)))
               (tis_default_info pc_config) 0
               (force_attach_world failing_kernel (loaded True)))) =
       [Platform_driver_register, Platform_device_register_simple, Devm_kzalloc 0x1000,
        Tpmm_chip_alloc 0x1000, Devm_ioremap 0x1000 0xFED40000 0x5000,
        Tpm_tis_init_generic 0x1000 0x1000 0 True False]"
    by (simp add: glue_eval)
  have p: "pdev (force_attach_world failing_kernel (loaded True)) = 0x1000"
    by (simp add: glue_eval)
  note k1 = inst[THEN conjunct1]
  note k2 = inst[THEN conjunct2, THEN conjunct1]
  note k6 = inst[THEN conjunct2, THEN conjunct2, THEN conjunct2, THEN conjunct2,
      THEN conjunct2, THEN conjunct1]
  note k8 = inst[THEN conjunct2, THEN conjunct2, THEN conjunct2, THEN conjunct2,
      THEN conjunct2, THEN conjunct2, THEN conjunct2, THEN conjunct1]
  have h3': "fst (tpm_tis_init pc_config failing_kernel
               (pdev (force_attach_world failing_kernel (loaded True)))
               (tis_default_info pc_config) 0
               (force_attach_world failing_kernel (loaded True))) \<noteq> 0"
    unfolding h3 by simp
  note k2' = k2[THEN mp, OF conjI[OF f conjI[OF h1 conjI[OF h2 h3']]]]
  have rc: "fst (init_tis pc_config failing_kernel (loaded True)) = - 5"
    using k2'[THEN conjunct1] unfolding h3 .
  have lg: "klog (snd (init_tis pc_config failing_kernel (loaded True))) =
       [Platform_driver_register, Platform_device_register_simple, Devm_kzalloc 0x1000,
        Tpmm_chip_alloc 0x1000, Devm_ioremap 0x1000 0xFED40000 0x5000,
        Tpm_tis_init_generic 0x1000 0x1000 0 True False,
        Platform_device_unregister 0x1000, Platform_driver_unregister]"
    using k2'[THEN conjunct2, THEN conjunct1] unfolding p l3[unfolded p] by simp
  have nz: "fst (init_tis pc_config failing_kernel (loaded True)) \<noteq> 0"
    unfolding rc by simp
  have rg: "registered (snd (init_tis pc_config failing_kernel (loaded True))) = {}"
    using k1[THEN mp, OF nz] unfolding r0 by simp
  have fc: "force (snd (init_tis pc_config good_kernel (loaded True)))"
    by (simp add: init_tis_state f)
  have pc: "pdev (snd (init_tis pc_config good_kernel (loaded True))) \<noteq> 0"
    by (simp add: glue_eval)
  from k6[THEN mp, OF conjI[OF fc pc]] obtain w'' where
    c: "cleanup_tis pc_config (snd (init_tis pc_config good_kernel (loaded True))) = Inr w''"
    by blast
  from k8[THEN mp, OF r0, THEN spec, THEN mp, OF c] have "registered w'' = {}" .
  with c have ex: "\<exists>w''. cleanup_tis pc_config (snd (init_tis pc_config good_kernel (loaded True))) = Inr w''
         \<and> registered w'' = {}" by blast
  from f rc lg rg ex show ?thesis by (intro conjI)
qed

subsection \<open>The transfer engine\<close>

declare send_fifo.simps [simp del] recv_fifo.simps [simp del]

lemma fifo_written_append: "fifo_written (xs @ ys) = fifo_written xs @ fifo_written ys"
  by (induction xs rule: fifo_written.induct) simp_all

lemma fifo_got_append: "fifo_got (xs @ ys) = fifo_got xs @ fifo_got ys"
  by (induction xs rule: fifo_got.induct) simp_all

lemma new_ops_append: "bus_ops e' = bus_ops e @ ys \<Longrightarrow> new_ops e e' = ys"
  by (simp add: new_ops_def)

lemma wait_for_ops: "bus_ops (snd (wait_for c n e)) = bus_ops e"
  "taken (snd (wait_for c n e)) = taken e" "locality (snd (wait_for c n e)) = locality e"
  by (induction c n e rule: wait_for.induct) simp_all

lemma send_fifo_inv:
  "\<exists>ys. bus_ops (snd (send_fifo d budget left rem e)) = bus_ops e @ ys
        \<and> list_all within_burst ys
        \<and> (\<exists>k. fifo_written ys = take k rem)
        \<and> (fst (send_fifo d budget left rem e) = None \<longrightarrow> fifo_written ys = rem)"
proof (induction d budget left rem e rule: send_fifo.induct)
  case (1 d budget left rem e)
  define b where "b = burst_at d (reads e)"
  define e1 where "e1 = e\<lparr>reads := Suc (reads e)\<rparr>"
  define n where "n = (if length rem = 1 then 1 else min b (length rem - 1))"
  define e2 where "e2 = e1\<lparr>bus_ops := bus_ops e1 @ [Fifo_write b (take n rem) (length rem = 1)]\<rparr>"
  have unf: "send_fifo d budget left rem e =
     (if rem = [] then (None, e)
      else if left = 0 then (Some Timeout, e)
      else if b = 0 then send_fifo d budget (left - 1) rem e1
           else send_fifo d budget budget (drop n rem) e2)"
    by (subst send_fifo.simps) (simp add: Let_def b_def e1_def n_def e2_def)
  show ?case
  proof (cases "rem = [] \<or> left = 0")
    case True
    then show ?thesis unfolding unf by auto
  next
    case False
    then have ne: "rem \<noteq> []" and l: "left \<noteq> 0" by auto
    show ?thesis
    proof (cases "b = 0")
      case True
      have e: "send_fifo d budget left rem e = send_fifo d budget (left - 1) rem e1"
        unfolding unf using ne l True by simp
      have o: "bus_ops e1 = bus_ops e" by (simp add: e1_def)
      from "1.IH"(1)[OF ne l b_def e1_def True] show ?thesis unfolding e o .
    next
      case nz: False
      have e: "send_fifo d budget left rem e = send_fifo d budget budget (drop n rem) e2"
        unfolding unf using ne l nz by simp
      have o: "bus_ops e2 = bus_ops e @ [Fifo_write b (take n rem) (length rem = 1)]"
        by (simp add: e2_def e1_def)
      from "1.IH"(2)[OF ne l b_def e1_def nz n_def e2_def]
      obtain ys where P: "bus_ops (snd (send_fifo d budget budget (drop n rem) e2)) = bus_ops e2 @ ys
        \<and> list_all within_burst ys
        \<and> (\<exists>k. fifo_written ys = take k (drop n rem))
        \<and> (fst (send_fifo d budget budget (drop n rem) e2) = None \<longrightarrow> fifo_written ys = drop n rem)"
        ..
      then obtain k where k: "fifo_written ys = take k (drop n rem)" by blast
      have nle: "n \<le> length rem" "n \<le> b" using ne nz by (auto simp: n_def Suc_leI)
      let ?zs = "Fifo_write b (take n rem) (length rem = 1) # ys"
      have z1: "bus_ops (snd (send_fifo d budget left rem e)) = bus_ops e @ ?zs"
        unfolding e using P o by simp
      have z2: "list_all within_burst ?zs" using P nle by simp
      have z3: "\<exists>k. fifo_written ?zs = take k rem"
      proof
        have "take n rem @ take k (drop n rem) = take (n + k) rem"
          by (simp only: take_add)
        then show "fifo_written ?zs = take (n + k) rem"
          unfolding fifo_written.simps k .
      qed
      have z4: "fst (send_fifo d budget left rem e) = None \<longrightarrow> fifo_written ?zs = rem"
      proof
        assume "fst (send_fifo d budget left rem e) = None"
        with P have "fifo_written ys = drop n rem" unfolding e by blast
        then show "fifo_written ?zs = rem" by simp
      qed
      show ?thesis
        by (rule exI[of _ ?zs]) (intro conjI z1 z2 z3 z4)
    qed
  qed
qed


lemma send_fifo_live:
  "(\<forall>k. \<exists>j<budget. burst_at d (k + j) \<noteq> 0) \<Longrightarrow>
   rem = [] \<or> (\<exists>j<left. burst_at d (reads e + j) \<noteq> 0) \<Longrightarrow>
   fst (send_fifo d budget left rem e) = None"
proof (induction d budget left rem e rule: send_fifo.induct)
  case (1 d budget left rem e)
  define b where "b = burst_at d (reads e)"
  define e1 where "e1 = e\<lparr>reads := Suc (reads e)\<rparr>"
  define n where "n = (if length rem = 1 then 1 else min b (length rem - 1))"
  define e2 where "e2 = e1\<lparr>bus_ops := bus_ops e1 @ [Fifo_write b (take n rem) (length rem = 1)]\<rparr>"
  have unf: "send_fifo d budget left rem e =
     (if rem = [] then (None, e)
      else if left = 0 then (Some Timeout, e)
      else if b = 0 then send_fifo d budget (left - 1) rem e1
           else send_fifo d budget budget (drop n rem) e2)"
    by (subst send_fifo.simps) (simp add: Let_def b_def e1_def n_def e2_def)
  note fair = "1.prems"(1)
  show ?case
  proof (cases "rem = []")
    case True
    then show ?thesis unfolding unf by simp
  next
    case ne: False
    with "1.prems"(2) obtain j where j: "j < left" "burst_at d (reads e + j) \<noteq> 0" by blast
    then have l: "left \<noteq> 0" by simp
    show ?thesis
    proof (cases "b = 0")
      case True
      have e: "send_fifo d budget left rem e = send_fifo d budget (left - 1) rem e1"
        unfolding unf using ne l True by simp
      from True j(2) have "j \<noteq> 0" unfolding b_def by (cases j) auto
      then obtain j' where j': "j = Suc j'" by (cases j) auto
      have "j' < left - 1" "burst_at d (reads e1 + j') \<noteq> 0"
        using j unfolding j' e1_def by simp_all
      then have "rem = [] \<or> (\<exists>j<left - 1. burst_at d (reads e1 + j) \<noteq> 0)" by blast
      from "1.IH"(1)[OF ne l b_def e1_def True fair this] show ?thesis unfolding e .
    next
      case nz: False
      have e: "send_fifo d budget left rem e = send_fifo d budget budget (drop n rem) e2"
        unfolding unf using ne l nz by simp
      from fair have "\<exists>j<budget. burst_at d (reads e2 + j) \<noteq> 0" by blast
      then have "drop n rem = [] \<or> (\<exists>j<budget. burst_at d (reads e2 + j) \<noteq> 0)" by blast
      from "1.IH"(2)[OF ne l b_def e1_def nz n_def e2_def fair this] show ?thesis unfolding e .
    qed
  qed
qed

lemma recv_fifo_inv:
  "\<exists>ys. bus_ops (snd (recv_fifo d budget left need e acc)) = bus_ops e @ ys
        \<and> list_all within_burst ys
        \<and> register_writes ys = []
        \<and> (\<exists>k. fifo_got ys = take k (drop (taken e) (response d)))
        \<and> taken (snd (recv_fifo d budget left need e acc)) = taken e + length (fifo_got ys)
        \<and> length (fifo_got ys) \<le> need
        \<and> (\<forall>bytes. fst (recv_fifo d budget left need e acc) = Inr bytes \<longrightarrow>
              bytes = acc @ fifo_got ys \<and> length (fifo_got ys) = need)"
proof (induction d budget left need e acc rule: recv_fifo.induct)
  case (1 d budget left need e acc)
  define b where "b = burst_at d (reads e)"
  define e1 where "e1 = e\<lparr>reads := Suc (reads e)\<rparr>"
  define c where "c = take (min b need) (drop (taken e1) (response d))"
  define e2 where "e2 = e1\<lparr>taken := taken e1 + length c, bus_ops := bus_ops e1 @ [Fifo_read b c]\<rparr>"
  have unf: "recv_fifo d budget left need e acc =
     (if need = 0 then (Inr acc, e)
      else if length (response d) \<le> taken e then (Inl IoError, e)
      else if left = 0 then (Inl Timeout, e)
      else if b = 0 then recv_fifo d budget (left - 1) need e1 acc
           else recv_fifo d budget budget (need - length c) e2 (acc @ c))"
    by (subst recv_fifo.simps) (simp add: Let_def b_def e1_def c_def e2_def)
  have triv: "bus_ops e = bus_ops e @ [] \<and> list_all within_burst [] \<and> register_writes [] = []
        \<and> (\<exists>k. fifo_got [] = take k (drop (taken e) (response d)))
        \<and> taken e = taken e + length (fifo_got []) \<and> length (fifo_got []) \<le> need"
    by (simp add: exI[of _ 0])
  show ?case
  proof (cases "need = 0 \<or> length (response d) \<le> taken e \<or> left = 0")
    case True
    then consider "need = 0" | "need \<noteq> 0" "length (response d) \<le> taken e"
      | "need \<noteq> 0" "\<not> length (response d) \<le> taken e" "left = 0" by blast
    then show ?thesis
    proof cases
      case 1
      then have r: "recv_fifo d budget left need e acc = (Inr acc, e)" unfolding unf by simp
      show ?thesis unfolding r using triv 1 by (intro exI[of _ "[]"]) simp
    next
      case 2
      then have r: "recv_fifo d budget left need e acc = (Inl IoError, e)" unfolding unf by simp
      show ?thesis unfolding r using triv by (intro exI[of _ "[]"]) simp
    next
      case 3
      then have r: "recv_fifo d budget left need e acc = (Inl Timeout, e)" unfolding unf by simp
      show ?thesis unfolding r using triv by (intro exI[of _ "[]"]) simp
    qed
  next
    case False
    then have nd: "need \<noteq> 0" and av: "\<not> length (response d) \<le> taken e" and l: "left \<noteq> 0"
      by auto
    show ?thesis
    proof (cases "b = 0")
      case True
      have r: "recv_fifo d budget left need e acc = recv_fifo d budget (left - 1) need e1 acc"
        unfolding unf using nd av l True by simp
      have o: "bus_ops e1 = bus_ops e" "taken e1 = taken e" by (simp_all add: e1_def)
      from "1.IH"(1)[OF nd av l b_def e1_def True] show ?thesis unfolding r o .
    next
      case nz: False
      have r: "recv_fifo d budget left need e acc =
               recv_fifo d budget budget (need - length c) e2 (acc @ c)"
        unfolding unf using nd av l nz by simp
      have o: "bus_ops e2 = bus_ops e @ [Fifo_read b c]" "taken e2 = taken e + length c"
        by (simp_all add: e2_def e1_def)
      let ?R = "drop (taken e) (response d)"
      have c: "c = take (min b need) ?R" by (simp add: c_def e1_def)
      have lc: "length c \<le> b" "length c \<le> need" unfolding c by simp_all
      have cR: "c = take (length c) ?R"
      proof (cases "min b need \<le> length ?R")
        case True
        then show ?thesis unfolding c by (simp add: min_absorb2)
      next
        case False
        then have "length ?R \<le> min b need" by (simp add: min_def split: if_splits)
        then have "take (min b need) ?R = ?R" by (rule take_all)
        then show ?thesis unfolding c by simp
      qed
      let ?r = "recv_fifo d budget budget (need - length c) e2 (acc @ c)"
      from "1.IH"(2)[OF nd av l b_def e1_def nz c_def e2_def]
      obtain ys where P: "bus_ops (snd ?r) = bus_ops e2 @ ys
        \<and> list_all within_burst ys
        \<and> register_writes ys = []
        \<and> (\<exists>k. fifo_got ys = take k (drop (taken e2) (response d)))
        \<and> taken (snd ?r) = taken e2 + length (fifo_got ys)
        \<and> length (fifo_got ys) \<le> need - length c
        \<and> (\<forall>bytes. fst ?r = Inr bytes \<longrightarrow>
              bytes = (acc @ c) @ fifo_got ys \<and> length (fifo_got ys) = need - length c)"
        ..
      note p1 = P[THEN conjunct1]
      note p2 = P[THEN conjunct2, THEN conjunct1]
      note p3 = P[THEN conjunct2, THEN conjunct2, THEN conjunct1]
      note p4 = P[THEN conjunct2, THEN conjunct2, THEN conjunct2, THEN conjunct1]
      note p5 = P[THEN conjunct2, THEN conjunct2, THEN conjunct2, THEN conjunct2, THEN conjunct1]
      note p6 = P[THEN conjunct2, THEN conjunct2, THEN conjunct2, THEN conjunct2, THEN conjunct2,
          THEN conjunct1]
      note p7 = P[THEN conjunct2, THEN conjunct2, THEN conjunct2, THEN conjunct2, THEN conjunct2,
          THEN conjunct2]
      from p4 obtain k where k: "fifo_got ys = take k (drop (taken e2) (response d))" ..
      let ?zs = "Fifo_read b c # ys"
      have z1: "bus_ops (snd (recv_fifo d budget left need e acc)) = bus_ops e @ ?zs"
        unfolding r p1 o by simp
      have z2: "list_all within_burst ?zs" using p2 lc by simp
      have z3: "register_writes ?zs = []" using p3 by simp
      have z4: "\<exists>k. fifo_got ?zs = take k ?R"
      proof
        have "drop (taken e2) (response d) = drop (length c) ?R"
          unfolding o by (simp add: add.commute)
        then have "fifo_got ys = take k (drop (length c) ?R)" using k by simp
        moreover have "take (length c) ?R @ take k (drop (length c) ?R) = take (length c + k) ?R"
          by (simp only: take_add)
        ultimately show "fifo_got ?zs = take (length c + k) ?R"
          using cR by simp
      qed
      have z5: "taken (snd (recv_fifo d budget left need e acc)) = taken e + length (fifo_got ?zs)"
        unfolding r p5 o by simp
      have z6: "length (fifo_got ?zs) \<le> need" using p6 lc by simp
      have z7: "\<forall>bytes. fst (recv_fifo d budget left need e acc) = Inr bytes \<longrightarrow>
              bytes = acc @ fifo_got ?zs \<and> length (fifo_got ?zs) = need"
      proof (intro allI impI)
        fix bytes assume "fst (recv_fifo d budget left need e acc) = Inr bytes"
        then have "fst ?r = Inr bytes" unfolding r .
        from p7[THEN spec, THEN mp, OF this]
        have "bytes = (acc @ c) @ fifo_got ys" "length (fifo_got ys) = need - length c"
          by simp_all
        then show "bytes = acc @ fifo_got ?zs \<and> length (fifo_got ?zs) = need"
          using lc by simp
      qed
      show ?thesis
        by (rule exI[of _ ?zs]) (intro conjI z1 z2 z3 z4 z5 z6 z7)
    qed
  qed
qed


lemma recv_fifo_live:
  "(\<forall>k. \<exists>j<budget. burst_at d (k + j) \<noteq> 0) \<Longrightarrow>
   taken e + need \<le> length (response d) \<Longrightarrow>
   need = 0 \<or> (\<exists>j<left. burst_at d (reads e + j) \<noteq> 0) \<Longrightarrow>
   \<exists>bytes. fst (recv_fifo d budget left need e acc) = Inr bytes"
proof (induction d budget left need e acc rule: recv_fifo.induct)
  case (1 d budget left need e acc)
  define b where "b = burst_at d (reads e)"
  define e1 where "e1 = e\<lparr>reads := Suc (reads e)\<rparr>"
  define c where "c = take (min b need) (drop (taken e1) (response d))"
  define e2 where "e2 = e1\<lparr>taken := taken e1 + length c, bus_ops := bus_ops e1 @ [Fifo_read b c]\<rparr>"
  have unf: "recv_fifo d budget left need e acc =
     (if need = 0 then (Inr acc, e)
      else if length (response d) \<le> taken e then (Inl IoError, e)
      else if left = 0 then (Inl Timeout, e)
      else if b = 0 then recv_fifo d budget (left - 1) need e1 acc
           else recv_fifo d budget budget (need - length c) e2 (acc @ c))"
    by (subst recv_fifo.simps) (simp add: Let_def b_def e1_def c_def e2_def)
  note fair = "1.prems"(1) and room = "1.prems"(2)
  show ?case
  proof (cases "need = 0")
    case True
    then show ?thesis unfolding unf by simp
  next
    case nd: False
    with "1.prems"(3) obtain j where j: "j < left" "burst_at d (reads e + j) \<noteq> 0" by blast
    then have l: "left \<noteq> 0" by simp
    from nd room have av: "\<not> length (response d) \<le> taken e" by simp
    show ?thesis
    proof (cases "b = 0")
      case True
      have r: "recv_fifo d budget left need e acc = recv_fifo d budget (left - 1) need e1 acc"
        unfolding unf using nd av l True by simp
      from True j(2) have "j \<noteq> 0" unfolding b_def by (cases j) auto
      then obtain j' where j': "j = Suc j'" by (cases j) auto
      have "j' < left - 1" "burst_at d (reads e1 + j') \<noteq> 0"
        using j unfolding j' e1_def by simp_all
      then have a: "need = 0 \<or> (\<exists>j<left - 1. burst_at d (reads e1 + j) \<noteq> 0)" by blast
      have room1: "taken e1 + need \<le> length (response d)" using room by (simp add: e1_def)
      from "1.IH"(1)[OF nd av l b_def e1_def True fair room1 a] show ?thesis unfolding r .
    next
      case nz: False
      have r: "recv_fifo d budget left need e acc =
               recv_fifo d budget budget (need - length c) e2 (acc @ c)"
        unfolding unf using nd av l nz by simp
      have lc: "length c \<le> need" by (simp add: c_def)
      have room2: "taken e2 + (need - length c) \<le> length (response d)"
        using room lc by (simp add: e2_def e1_def)
      from fair have "\<exists>j<budget. burst_at d (reads e2 + j) \<noteq> 0" by blast
      then have a: "need - length c = 0 \<or> (\<exists>j<budget. burst_at d (reads e2 + j) \<noteq> 0)" by blast
      from "1.IH"(2)[OF nd av l b_def e1_def nz c_def e2_def fair room2 a]
      show ?thesis unfolding r .
    qed
  qed
qed

lemma request_locality_ops:
  "bus_ops (snd (request_locality d ts n e)) =
     bus_ops e @ (if locality e = Some n then [] else [Request_locality n])"
  by (simp add: request_locality_def Let_def case_prod_beta wait_for_ops)

lemma tis_send_unfold:
  "tis_send d ts n buf e =
     (if fst (request_locality d ts n e) \<noteq> None then request_locality d ts n e
      else if \<not> fst (wait_for (ready_at d) (timeout_b ts)
                ((snd (request_locality d ts n e))\<lparr>bus_ops :=
                   bus_ops (snd (request_locality d ts n e)) @ [Assert_command_ready]\<rparr>))
      then (Some NotReady, snd (wait_for (ready_at d) (timeout_b ts)
                ((snd (request_locality d ts n e))\<lparr>bus_ops :=
                   bus_ops (snd (request_locality d ts n e)) @ [Assert_command_ready]\<rparr>)))
      else if fst (send_fifo d (timeout_burst ts) (timeout_burst ts) buf
                (snd (wait_for (ready_at d) (timeout_b ts)
                ((snd (request_locality d ts n e))\<lparr>bus_ops :=
                   bus_ops (snd (request_locality d ts n e)) @ [Assert_command_ready]\<rparr>)))) \<noteq> None
      then send_fifo d (timeout_burst ts) (timeout_burst ts) buf
                (snd (wait_for (ready_at d) (timeout_b ts)
                ((snd (request_locality d ts n e))\<lparr>bus_ops :=
                   bus_ops (snd (request_locality d ts n e)) @ [Assert_command_ready]\<rparr>)))
      else (None, (snd (send_fifo d (timeout_burst ts) (timeout_burst ts) buf
                (snd (wait_for (ready_at d) (timeout_b ts)
                ((snd (request_locality d ts n e))\<lparr>bus_ops :=
                   bus_ops (snd (request_locality d ts n e)) @ [Assert_command_ready]\<rparr>)))))
               \<lparr>bus_ops := bus_ops (snd (send_fifo d (timeout_burst ts) (timeout_burst ts) buf
                (snd (wait_for (ready_at d) (timeout_b ts)
                ((snd (request_locality d ts n e))\<lparr>bus_ops :=
                   bus_ops (snd (request_locality d ts n e)) @ [Assert_command_ready]\<rparr>)))))
                  @ [Assert_go]\<rparr>))"
  by (auto simp: tis_send_def Let_def split: prod.splits option.splits)


lemma tis_send_inv:
  "\<exists>ys. bus_ops (snd (tis_send d ts n buf e)) = bus_ops e @ ys
        \<and> list_all within_burst ys
        \<and> (\<exists>k. fifo_written ys = take k buf)
        \<and> (fst (tis_send d ts n buf e) = None \<longrightarrow> fifo_written ys = buf)"
proof -
  define r1 where "r1 = request_locality d ts n e"
  define xs where "xs = (if locality e = Some n then [] else [Request_locality n])"
  define e2 where "e2 = (snd r1)\<lparr>bus_ops := bus_ops (snd r1) @ [Assert_command_ready]\<rparr>"
  define w where "w = wait_for (ready_at d) (timeout_b ts) e2"
  define r where "r = send_fifo d (timeout_burst ts) (timeout_burst ts) buf (snd w)"
  have unf: "tis_send d ts n buf e =
     (if fst r1 \<noteq> None then r1
      else if \<not> fst w then (Some NotReady, snd w)
      else if fst r \<noteq> None then r
      else (None, (snd r)\<lparr>bus_ops := bus_ops (snd r) @ [Assert_go]\<rparr>))"
    unfolding r_def w_def e2_def r1_def by (rule tis_send_unfold)
  have o1: "bus_ops (snd r1) = bus_ops e @ xs"
    unfolding r1_def xs_def by (rule request_locality_ops)
  have x: "list_all within_burst xs" "fifo_written xs = []" by (simp_all add: xs_def)
  have ow: "bus_ops (snd w) = bus_ops e @ xs @ [Assert_command_ready]"
    unfolding w_def wait_for_ops e2_def using o1 by simp
  from send_fifo_inv[of d "timeout_burst ts" "timeout_burst ts" buf "snd w"]
  obtain ys where P: "bus_ops (snd r) = bus_ops (snd w) @ ys
        \<and> list_all within_burst ys
        \<and> (\<exists>k. fifo_written ys = take k buf)
        \<and> (fst r = None \<longrightarrow> fifo_written ys = buf)"
    unfolding r_def ..
  note p1 = P[THEN conjunct1] and p2 = P[THEN conjunct2, THEN conjunct1]
    and p3 = P[THEN conjunct2, THEN conjunct2, THEN conjunct1]
    and p4 = P[THEN conjunct2, THEN conjunct2, THEN conjunct2]
  have t0: "\<exists>k. [] = take k buf" by (rule exI[of _ 0]) simp
  consider (a) "fst r1 \<noteq> None" | (b) "fst r1 = None" "\<not> fst w"
    | (c) "fst r1 = None" "fst w" "fst r \<noteq> None" | (d) "fst r1 = None" "fst w" "fst r = None"
    by blast
  then show ?thesis
  proof cases
    case a
    then have t: "tis_send d ts n buf e = r1" unfolding unf by simp
    have "fst r1 = None \<longrightarrow> fifo_written xs = buf" using a by blast
    with o1 x t0 show ?thesis unfolding t by (intro exI[of _ xs]) simp
  next
    case b
    then have t: "tis_send d ts n buf e = (Some NotReady, snd w)" unfolding unf by simp
    show ?thesis unfolding t using ow x t0
      by (intro exI[of _ "xs @ [Assert_command_ready]"]) (simp add: fifo_written_append)
  next
    case c
    then have t: "tis_send d ts n buf e = r" unfolding unf by simp
    have z1: "bus_ops (snd r) = bus_ops e @ (xs @ [Assert_command_ready] @ ys)"
      unfolding p1 ow by simp
    have z2: "list_all within_burst (xs @ [Assert_command_ready] @ ys)" using x p2 by simp
    have z3: "\<exists>k. fifo_written (xs @ [Assert_command_ready] @ ys) = take k buf"
      using p3 x by (simp add: fifo_written_append)
    have z4: "fst r = None \<longrightarrow> fifo_written (xs @ [Assert_command_ready] @ ys) = buf"
      using c(3) by blast
    show ?thesis unfolding t
      by (rule exI[of _ "xs @ [Assert_command_ready] @ ys"]) (intro conjI z1 z2 z3 z4)
  next
    case d
    then have t: "tis_send d ts n buf e = (None, (snd r)\<lparr>bus_ops := bus_ops (snd r) @ [Assert_go]\<rparr>)"
      unfolding unf by simp
    let ?zs = "xs @ [Assert_command_ready] @ ys @ [Assert_go]"
    have w: "fifo_written ys = buf" using p4 d by simp
    have z1: "bus_ops (snd (tis_send d ts n buf e)) = bus_ops e @ ?zs"
      unfolding t using p1 ow by simp
    have z2: "list_all within_burst ?zs" using x p2 by simp
    have z4: "fifo_written ?zs = buf" using w x by (simp add: fifo_written_append)
    have z3: "\<exists>k. fifo_written ?zs = take k buf"
      unfolding z4 by (rule exI[of _ "length buf"]) simp
    have z5: "fst (tis_send d ts n buf e) = None \<longrightarrow> fifo_written ?zs = buf"
      using z4 by simp
    show ?thesis
      by (rule exI[of _ ?zs]) (intro conjI z1 z2 z3 z5)
  qed
qed

lemma wait_for_reads: "reads e \<le> reads (snd (wait_for c n e))"
  by (induction c n e rule: wait_for.induct) (auto intro: order_trans)

lemma tis_send_live:
  assumes fair: "\<forall>k. \<exists>j<timeout_burst ts. burst_at d (k + j) \<noteq> 0"
  shows "fst (tis_send d ts n buf e) = None
       \<or> fst (tis_send d ts n buf e) = Some LocalityTimeout
       \<or> fst (tis_send d ts n buf e) = Some NotReady"
proof -
  define r1 where "r1 = request_locality d ts n e"
  define e2 where "e2 = (snd r1)\<lparr>bus_ops := bus_ops (snd r1) @ [Assert_command_ready]\<rparr>"
  define w where "w = wait_for (ready_at d) (timeout_b ts) e2"
  define r where "r = send_fifo d (timeout_burst ts) (timeout_burst ts) buf (snd w)"
  have unf: "tis_send d ts n buf e =
     (if fst r1 \<noteq> None then r1
      else if \<not> fst w then (Some NotReady, snd w)
      else if fst r \<noteq> None then r
      else (None, (snd r)\<lparr>bus_ops := bus_ops (snd r) @ [Assert_go]\<rparr>))"
    unfolding r_def w_def e2_def r1_def by (rule tis_send_unfold)
  have l: "fst r1 = None \<or> fst r1 = Some LocalityTimeout"
    by (simp add: r1_def request_locality_def Let_def case_prod_beta)
  from fair have "\<exists>j<timeout_burst ts. burst_at d (reads (snd w) + j) \<noteq> 0" by blast
  then have "buf = [] \<or> (\<exists>j<timeout_burst ts. burst_at d (reads (snd w) + j) \<noteq> 0)" by blast
  from send_fifo_live[OF fair this] have rn: "fst r = None" unfolding r_def .
  show ?thesis unfolding unf using l rn by auto
qed


lemma take_chain:
  assumes "xs = take k R" "ys = take k' (drop (length xs) R)"
  shows "\<exists>m. xs @ ys = take m R"
proof
  have "take (length xs) R = xs"
  proof (cases "k \<le> length R")
    case True
    then show ?thesis unfolding assms(1) by (simp add: min_absorb2)
  next
    case False
    then have "length R \<le> k" by simp
    then have "take k R = R" by (rule take_all)
    then show ?thesis unfolding assms(1) by simp
  qed
  then have "xs @ ys = take (length xs) R @ take k' (drop (length xs) R)"
    using assms(2) by simp
  also have "\<dots> = take (length xs + k') R" by (simp only: take_add)
  finally show "xs @ ys = take (length xs + k') R" .
qed

lemma recv_fifo_errors:
  "fst (recv_fifo d budget left need e acc) \<noteq> Inl MalformedResponse"
proof (induction d budget left need e acc rule: recv_fifo.induct)
  case (1 d budget left need e acc)
  define b where "b = burst_at d (reads e)"
  define e1 where "e1 = e\<lparr>reads := Suc (reads e)\<rparr>"
  define c where "c = take (min b need) (drop (taken e1) (response d))"
  define e2 where "e2 = e1\<lparr>taken := taken e1 + length c, bus_ops := bus_ops e1 @ [Fifo_read b c]\<rparr>"
  have unf: "recv_fifo d budget left need e acc =
     (if need = 0 then (Inr acc, e)
      else if length (response d) \<le> taken e then (Inl IoError, e)
      else if left = 0 then (Inl Timeout, e)
      else if b = 0 then recv_fifo d budget (left - 1) need e1 acc
           else recv_fifo d budget budget (need - length c) e2 (acc @ c))"
    by (subst recv_fifo.simps) (simp add: Let_def b_def e1_def c_def e2_def)
  show ?case
  proof (cases "need = 0 \<or> length (response d) \<le> taken e \<or> left = 0")
    case True
    then show ?thesis unfolding unf by auto
  next
    case False
    then have nd: "need \<noteq> 0" and av: "\<not> length (response d) \<le> taken e" and l: "left \<noteq> 0"
      by auto
    show ?thesis
    proof (cases "b = 0")
      case True
      have r: "recv_fifo d budget left need e acc = recv_fifo d budget (left - 1) need e1 acc"
        unfolding unf using nd av l True by simp
      from "1.IH"(1)[OF nd av l b_def e1_def True] show ?thesis unfolding r .
    next
      case nz: False
      have r: "recv_fifo d budget left need e acc =
               recv_fifo d budget budget (need - length c) e2 (acc @ c)"
        unfolding unf using nd av l nz by simp
      from "1.IH"(2)[OF nd av l b_def e1_def nz c_def e2_def] show ?thesis unfolding r .
    qed
  qed
qed

lemma declared_length_header:
  "length hdr = 6 \<Longrightarrow> declared_length (hdr @ body) = declared_length hdr"
  by (simp add: declared_length_def nth_append)

lemma tis_recv_unfold:
  "tis_recv d ts slow capacity e =
     (if \<not> fst (wait_for (avail_at d) (if slow then timeout_d ts else timeout_c ts) e)
      then (Inl Timeout, snd (wait_for (avail_at d) (if slow then timeout_d ts else timeout_c ts) e))
      else
        (case fst (recv_fifo d (timeout_burst ts) (timeout_burst ts) 6
                 (snd (wait_for (avail_at d) (if slow then timeout_d ts else timeout_c ts) e)) []) of
           Inl err \<Rightarrow> (Inl err, snd (recv_fifo d (timeout_burst ts) (timeout_burst ts) 6
                 (snd (wait_for (avail_at d) (if slow then timeout_d ts else timeout_c ts) e)) []))
         | Inr hdr \<Rightarrow>
             if declared_length hdr < 6 \<or> capacity < declared_length hdr
             then (Inl MalformedResponse, snd (recv_fifo d (timeout_burst ts) (timeout_burst ts) 6
                 (snd (wait_for (avail_at d) (if slow then timeout_d ts else timeout_c ts) e)) []))
             else
               (case fst (recv_fifo d (timeout_burst ts) (timeout_burst ts)
                       (declared_length hdr - 6) (snd (recv_fifo d (timeout_burst ts) (timeout_burst ts) 6
                 (snd (wait_for (avail_at d) (if slow then timeout_d ts else timeout_c ts) e)) [])) []) of
                  Inl err \<Rightarrow> (Inl err, snd (recv_fifo d (timeout_burst ts) (timeout_burst ts)
                       (declared_length hdr - 6) (snd (recv_fifo d (timeout_burst ts) (timeout_burst ts) 6
                 (snd (wait_for (avail_at d) (if slow then timeout_d ts else timeout_c ts) e)) [])) []))
                | Inr body \<Rightarrow>
                    (Inr (hdr @ body), (snd (recv_fifo d (timeout_burst ts) (timeout_burst ts)
                       (declared_length hdr - 6) (snd (recv_fifo d (timeout_burst ts) (timeout_burst ts) 6
                 (snd (wait_for (avail_at d) (if slow then timeout_d ts else timeout_c ts) e)) [])) []))
                       \<lparr>bus_ops := bus_ops (snd (recv_fifo d (timeout_burst ts) (timeout_burst ts)
                       (declared_length hdr - 6) (snd (recv_fifo d (timeout_burst ts) (timeout_burst ts) 6
                 (snd (wait_for (avail_at d) (if slow then timeout_d ts else timeout_c ts) e)) [])) []))
                          @ [Deassert_command_ready]\<rparr>))))"
  unfolding tis_recv_def Let_def
  by (simp add: case_prod_beta split: sum.splits prod.splits)


lemma tis_recv_inv:
  "\<exists>ys. bus_ops (snd (tis_recv d ts slow capacity e)) = bus_ops e @ ys
        \<and> list_all within_burst ys
        \<and> (\<exists>k. fifo_got ys = take k (drop (taken e) (response d)))
        \<and> (\<forall>bytes. fst (tis_recv d ts slow capacity e) = Inr bytes \<longrightarrow>
              bytes = fifo_got ys \<and> length bytes = declared_length bytes
              \<and> 6 \<le> length bytes \<and> length bytes \<le> capacity)
        \<and> (length (fifo_got ys) \<le> 6
            \<or> (6 \<le> declared_length (take 6 (fifo_got ys))
                \<and> declared_length (take 6 (fifo_got ys)) \<le> capacity))
        \<and> (fst (tis_recv d ts slow capacity e) = Inl MalformedResponse \<longrightarrow>
              length (fifo_got ys) = 6 \<and> register_writes ys = []
              \<and> (declared_length (fifo_got ys) < 6 \<or> capacity < declared_length (fifo_got ys)))"
  (is "\<exists>ys. ?Q ys")
proof -
  define tb where "tb = timeout_burst ts"
  define w where "w = wait_for (avail_at d) (if slow then timeout_d ts else timeout_c ts) e"
  define h where "h = recv_fifo d tb tb 6 (snd w) []"
  let ?R = "drop (taken e) (response d)"
  have unf: "tis_recv d ts slow capacity e =
     (if \<not> fst w then (Inl Timeout, snd w)
      else
        (case fst h of
           Inl err \<Rightarrow> (Inl err, snd h)
         | Inr hdr \<Rightarrow>
             if declared_length hdr < 6 \<or> capacity < declared_length hdr
             then (Inl MalformedResponse, snd h)
             else
               (case fst (recv_fifo d tb tb (declared_length hdr - 6) (snd h) []) of
                  Inl err \<Rightarrow> (Inl err, snd (recv_fifo d tb tb (declared_length hdr - 6) (snd h) []))
                | Inr body \<Rightarrow>
                    (Inr (hdr @ body), (snd (recv_fifo d tb tb (declared_length hdr - 6) (snd h) []))
                       \<lparr>bus_ops := bus_ops (snd (recv_fifo d tb tb (declared_length hdr - 6) (snd h) []))
                          @ [Deassert_command_ready]\<rparr>))))"
    unfolding h_def w_def tb_def by (rule tis_recv_unfold)
  have ow: "bus_ops (snd w) = bus_ops e" "taken (snd w) = taken e"
    unfolding w_def by (rule wait_for_ops)+
  have t0: "\<exists>k. [] = take k ?R" by (rule exI[of _ 0]) simp
  show ?thesis
  proof (cases "fst w")
    case False
    then have t: "tis_recv d ts slow capacity e = (Inl Timeout, snd w)" unfolding unf by simp
    show ?thesis unfolding t using ow t0 by (intro exI[of _ "[]"]) simp
  next
    case fw: True
    from recv_fifo_inv[of d tb tb 6 "snd w" "[]"]
    obtain ys where P: "bus_ops (snd h) = bus_ops (snd w) @ ys
        \<and> list_all within_burst ys
        \<and> register_writes ys = []
        \<and> (\<exists>k. fifo_got ys = take k (drop (taken (snd w)) (response d)))
        \<and> taken (snd h) = taken (snd w) + length (fifo_got ys)
        \<and> length (fifo_got ys) \<le> 6
        \<and> (\<forall>bytes. fst h = Inr bytes \<longrightarrow>
              bytes = [] @ fifo_got ys \<and> length (fifo_got ys) = 6)"
      unfolding h_def ..
    note p1 = P[THEN conjunct1, unfolded ow]
    note p2 = P[THEN conjunct2, THEN conjunct1]
    note p3 = P[THEN conjunct2, THEN conjunct2, THEN conjunct1]
    note p4 = P[THEN conjunct2, THEN conjunct2, THEN conjunct2, THEN conjunct1, unfolded ow]
    note p5 = P[THEN conjunct2, THEN conjunct2, THEN conjunct2, THEN conjunct2, THEN conjunct1,
        unfolded ow]
    note p6 = P[THEN conjunct2, THEN conjunct2, THEN conjunct2, THEN conjunct2, THEN conjunct2,
        THEN conjunct1]
    note p7 = P[THEN conjunct2, THEN conjunct2, THEN conjunct2, THEN conjunct2, THEN conjunct2,
        THEN conjunct2]
    have s5: "length (fifo_got ys) \<le> 6 \<or> (6 \<le> declared_length (take 6 (fifo_got ys))
                \<and> declared_length (take 6 (fifo_got ys)) \<le> capacity)"
      using p6 by (rule disjI1)
    show ?thesis
    proof (cases "fst h")
      case (Inl err)
      then have t: "tis_recv d ts slow capacity e = (Inl err, snd h)"
        unfolding unf using fw by simp
      have ne: "err \<noteq> MalformedResponse"
        using recv_fifo_errors[of d tb tb 6 "snd w" "[]"] Inl unfolding h_def by auto
      have s4: "\<forall>bytes. fst (Inl err :: tis_error + u8 list, snd h) = Inr bytes \<longrightarrow>
              bytes = fifo_got ys \<and> length bytes = declared_length bytes
              \<and> 6 \<le> length bytes \<and> length bytes \<le> capacity" by simp
      have s6: "fst (Inl err :: tis_error + u8 list, snd h) = Inl MalformedResponse \<longrightarrow>
              length (fifo_got ys) = 6 \<and> register_writes ys = []
              \<and> (declared_length (fifo_got ys) < 6 \<or> capacity < declared_length (fifo_got ys))"
        using ne by simp
      have s1: "bus_ops (snd (Inl err :: tis_error + u8 list, snd h)) = bus_ops e @ ys"
        using p1 by simp
      show ?thesis unfolding t
        by (rule exI[of _ ys]) (intro conjI s1 p2 p4 s4 s5 s6)
    next
      case (Inr hdr)
      from p7[THEN spec, THEN mp, OF Inr] have hdr: "hdr = fifo_got ys" "length (fifo_got ys) = 6"
        by simp_all
      then have lh: "length hdr = 6" by simp
      show ?thesis
      proof (cases "declared_length hdr < 6 \<or> capacity < declared_length hdr")
        case bad: True
        then have t: "tis_recv d ts slow capacity e = (Inl MalformedResponse, snd h)"
          unfolding unf using fw Inr by simp
        have s1: "bus_ops (snd (Inl MalformedResponse :: tis_error + u8 list, snd h)) = bus_ops e @ ys"
          using p1 by simp
        have s4: "\<forall>bytes. fst (Inl MalformedResponse :: tis_error + u8 list, snd h) = Inr bytes \<longrightarrow>
              bytes = fifo_got ys \<and> length bytes = declared_length bytes
              \<and> 6 \<le> length bytes \<and> length bytes \<le> capacity" by simp
        have s6: "fst (Inl MalformedResponse :: tis_error + u8 list, snd h) = Inl MalformedResponse \<longrightarrow>
              length (fifo_got ys) = 6 \<and> register_writes ys = []
              \<and> (declared_length (fifo_got ys) < 6 \<or> capacity < declared_length (fifo_got ys))"
          using bad hdr p3 by simp
        show ?thesis unfolding t
          by (rule exI[of _ ys]) (intro conjI s1 p2 p4 s4 s5 s6)
      next
        case good: False
        then have dl: "6 \<le> declared_length hdr" "declared_length hdr \<le> capacity" by simp_all
        define bd where "bd = recv_fifo d tb tb (declared_length hdr - 6) (snd h) []"
        from recv_fifo_inv[of d tb tb "declared_length hdr - 6" "snd h" "[]"]
        obtain zs where B: "bus_ops (snd bd) = bus_ops (snd h) @ zs
          \<and> list_all within_burst zs
          \<and> register_writes zs = []
          \<and> (\<exists>k. fifo_got zs = take k (drop (taken (snd h)) (response d)))
          \<and> taken (snd bd) = taken (snd h) + length (fifo_got zs)
          \<and> length (fifo_got zs) \<le> declared_length hdr - 6
          \<and> (\<forall>bytes. fst bd = Inr bytes \<longrightarrow>
                bytes = [] @ fifo_got zs \<and> length (fifo_got zs) = declared_length hdr - 6)"
          unfolding bd_def ..
        note b1 = B[THEN conjunct1]
        note b2 = B[THEN conjunct2, THEN conjunct1]
        note b4 = B[THEN conjunct2, THEN conjunct2, THEN conjunct2, THEN conjunct1]
        note b7 = B[THEN conjunct2, THEN conjunct2, THEN conjunct2, THEN conjunct2, THEN conjunct2,
            THEN conjunct2]
        from p4 obtain k1 where k1: "fifo_got ys = take k1 ?R" ..
        from b4 obtain k2 where "fifo_got zs = take k2 (drop (taken (snd h)) (response d))" ..
        then have k2: "fifo_got zs = take k2 (drop (length (fifo_got ys)) ?R)"
          unfolding p5 by (simp add: add.commute)
        from take_chain[OF k1 k2] have ch: "\<exists>m. fifo_got ys @ fifo_got zs = take m ?R" .
        have tk: "take 6 (fifo_got ys @ fifo_got zs) = hdr" using hdr by simp
        have s5': "length (fifo_got ys @ fifo_got zs) \<le> 6
            \<or> (6 \<le> declared_length (take 6 (fifo_got ys @ fifo_got zs))
                \<and> declared_length (take 6 (fifo_got ys @ fifo_got zs)) \<le> capacity)"
          unfolding tk using dl by (intro disjI2 conjI)
        have tr: "tis_recv d ts slow capacity e =
           (case fst bd of
                  Inl err \<Rightarrow> (Inl err, snd bd)
                | Inr body \<Rightarrow>
                    (Inr (hdr @ body), (snd bd)\<lparr>bus_ops := bus_ops (snd bd) @ [Deassert_command_ready]\<rparr>))"
          unfolding unf bd_def using fw Inr good by simp
        show ?thesis
        proof (cases "fst bd")
          case (Inl err)
          then have t: "tis_recv d ts slow capacity e = (Inl err, snd bd)" unfolding tr by simp
          have ne: "err \<noteq> MalformedResponse"
            using recv_fifo_errors[of d tb tb "declared_length hdr - 6" "snd h" "[]"] Inl
            unfolding bd_def by auto
          let ?ys = "ys @ zs"
          have s1: "bus_ops (snd (Inl err :: tis_error + u8 list, snd bd)) = bus_ops e @ ?ys"
            using b1 p1 by simp
          have s2: "list_all within_burst ?ys" using p2 b2 by simp
          have s3: "\<exists>k. fifo_got ?ys = take k ?R" using ch by (simp add: fifo_got_append)
          have s4: "\<forall>bytes. fst (Inl err :: tis_error + u8 list, snd bd) = Inr bytes \<longrightarrow>
              bytes = fifo_got ?ys \<and> length bytes = declared_length bytes
              \<and> 6 \<le> length bytes \<and> length bytes \<le> capacity" by simp
          have s5: "length (fifo_got ?ys) \<le> 6
            \<or> (6 \<le> declared_length (take 6 (fifo_got ?ys))
                \<and> declared_length (take 6 (fifo_got ?ys)) \<le> capacity)"
            using s5' by (simp only: fifo_got_append)
          have s6: "fst (Inl err :: tis_error + u8 list, snd bd) = Inl MalformedResponse \<longrightarrow>
              length (fifo_got ?ys) = 6 \<and> register_writes ?ys = []
              \<and> (declared_length (fifo_got ?ys) < 6 \<or> capacity < declared_length (fifo_got ?ys))"
            using ne by simp
          show ?thesis unfolding t
            by (rule exI[of _ ?ys]) (intro conjI s1 s2 s3 s4 s5 s6)
        next
          case (Inr body)
          then have t: "tis_recv d ts slow capacity e =
              (Inr (hdr @ body), (snd bd)\<lparr>bus_ops := bus_ops (snd bd) @ [Deassert_command_ready]\<rparr>)"
            unfolding tr by simp
          from b7[THEN spec, THEN mp, OF Inr]
          have body: "body = fifo_got zs" "length (fifo_got zs) = declared_length hdr - 6"
            by simp_all
          let ?ys = "ys @ zs @ [Deassert_command_ready]"
          have g: "fifo_got ?ys = hdr @ body"
            using hdr body by (simp add: fifo_got_append)
          have s1: "bus_ops (snd (tis_recv d ts slow capacity e)) = bus_ops e @ ?ys"
            unfolding t using b1 p1 by simp
          have s2: "list_all within_burst ?ys" using p2 b2 by simp
          have s3: "\<exists>k. fifo_got ?ys = take k ?R"
            using ch unfolding g hdr(1) body(1) .
          have len: "length (hdr @ body) = declared_length hdr"
            using lh body dl by simp
          have s4: "\<forall>bytes. fst (tis_recv d ts slow capacity e) = Inr bytes \<longrightarrow>
              bytes = fifo_got ?ys \<and> length bytes = declared_length bytes
              \<and> 6 \<le> length bytes \<and> length bytes \<le> capacity"
            unfolding t g using len dl declared_length_header[OF lh, of body] by simp
          have s5: "length (fifo_got ?ys) \<le> 6
            \<or> (6 \<le> declared_length (take 6 (fifo_got ?ys))
                \<and> declared_length (take 6 (fifo_got ?ys)) \<le> capacity)"
            unfolding g using lh dl by simp
          have s6: "fst (tis_recv d ts slow capacity e) = Inl MalformedResponse \<longrightarrow>
              length (fifo_got ?ys) = 6 \<and> register_writes ?ys = []
              \<and> (declared_length (fifo_got ?ys) < 6 \<or> capacity < declared_length (fifo_got ?ys))"
            unfolding t by simp
          show ?thesis
            by (rule exI[of _ ?ys]) (intro conjI s1 s2 s3 s4 s5 s6)
        qed
      qed
    qed
  qed
qed


lemma take_of_length: "xs = take k R \<Longrightarrow> xs = take (length xs) R"
proof (cases "k \<le> length R")
  case True
  assume "xs = take k R"
  with True show ?thesis by (simp add: min_absorb2)
next
  case False
  assume x: "xs = take k R"
  from False have "length R \<le> k" by simp
  then have "take k R = R" by (rule take_all)
  with x show ?thesis by simp
qed

lemma declared_length_take:
  "6 \<le> length R \<Longrightarrow> declared_length (take 6 R) = declared_length R"
  by (simp add: declared_length_def)

lemma tis_recv_live:
  assumes fair: "\<forall>k. \<exists>j<timeout_burst ts. burst_at d (k + j) \<noteq> 0"
    and avail: "fst (wait_for (avail_at d) (if slow then timeout_d ts else timeout_c ts) e)"
    and hdr6: "6 \<le> length (drop (taken e) (response d))"
    and lo: "6 \<le> declared_length (drop (taken e) (response d))"
    and hi: "declared_length (drop (taken e) (response d)) \<le> capacity"
    and all_there: "declared_length (drop (taken e) (response d))
                      \<le> length (drop (taken e) (response d))"
  shows "fst (tis_recv d ts slow capacity e) =
           Inr (take (declared_length (drop (taken e) (response d))) (drop (taken e) (response d)))"
proof -
  define tb where "tb = timeout_burst ts"
  define w where "w = wait_for (avail_at d) (if slow then timeout_d ts else timeout_c ts) e"
  define h where "h = recv_fifo d tb tb 6 (snd w) []"
  let ?R = "drop (taken e) (response d)"
  let ?dl = "declared_length ?R"
  have unf: "tis_recv d ts slow capacity e =
     (if \<not> fst w then (Inl Timeout, snd w)
      else
        (case fst h of
           Inl err \<Rightarrow> (Inl err, snd h)
         | Inr hdr \<Rightarrow>
             if declared_length hdr < 6 \<or> capacity < declared_length hdr
             then (Inl MalformedResponse, snd h)
             else
               (case fst (recv_fifo d tb tb (declared_length hdr - 6) (snd h) []) of
                  Inl err \<Rightarrow> (Inl err, snd (recv_fifo d tb tb (declared_length hdr - 6) (snd h) []))
                | Inr body \<Rightarrow>
                    (Inr (hdr @ body), (snd (recv_fifo d tb tb (declared_length hdr - 6) (snd h) []))
                       \<lparr>bus_ops := bus_ops (snd (recv_fifo d tb tb (declared_length hdr - 6) (snd h) []))
                          @ [Deassert_command_ready]\<rparr>))))"
    unfolding h_def w_def tb_def by (rule tis_recv_unfold)
  have fw: "fst w" using avail unfolding w_def .
  have ow: "taken (snd w) = taken e" unfolding w_def by (rule wait_for_ops)
  have fair': "\<forall>k. \<exists>j<tb. burst_at d (k + j) \<noteq> 0" using fair unfolding tb_def .
  have st: "\<exists>j<tb. burst_at d (reads x + j) \<noteq> 0" for x :: engine using fair' by blast
  have room: "taken (snd w) + 6 \<le> length (response d)" using hdr6 unfolding ow by simp
  have "(6::nat) = 0 \<or> (\<exists>j<tb. burst_at d (reads (snd w) + j) \<noteq> 0)" using st by blast
  from recv_fifo_live[OF fair' room this, of "[]"]
  obtain hdr where H: "fst h = Inr hdr" unfolding h_def ..
  from recv_fifo_inv[of d tb tb 6 "snd w" "[]"]
  obtain ys where P: "bus_ops (snd h) = bus_ops (snd w) @ ys
        \<and> list_all within_burst ys
        \<and> register_writes ys = []
        \<and> (\<exists>k. fifo_got ys = take k (drop (taken (snd w)) (response d)))
        \<and> taken (snd h) = taken (snd w) + length (fifo_got ys)
        \<and> length (fifo_got ys) \<le> 6
        \<and> (\<forall>bytes. fst h = Inr bytes \<longrightarrow>
              bytes = [] @ fifo_got ys \<and> length (fifo_got ys) = 6)"
    unfolding h_def ..
  note p4 = P[THEN conjunct2, THEN conjunct2, THEN conjunct2, THEN conjunct1, unfolded ow]
  note p5 = P[THEN conjunct2, THEN conjunct2, THEN conjunct2, THEN conjunct2, THEN conjunct1,
        unfolded ow]
  note p7 = P[THEN conjunct2, THEN conjunct2, THEN conjunct2, THEN conjunct2, THEN conjunct2,
        THEN conjunct2]
  from p7[THEN spec, THEN mp, OF H] have hg: "hdr = fifo_got ys" "length (fifo_got ys) = 6"
    by simp_all
  from p4 obtain k where "fifo_got ys = take k ?R" ..
  from take_of_length[OF this] have "hdr = take 6 ?R" unfolding hg(1) hg(2) .
  then have dh: "declared_length hdr = ?dl" using declared_length_take[OF hdr6] by simp
  define bd where "bd = recv_fifo d tb tb (?dl - 6) (snd h) []"
  have th: "taken (snd h) = taken e + 6" using p5 hg(2) by simp
  have room2: "taken (snd h) + (?dl - 6) \<le> length (response d)"
    unfolding th using all_there lo by simp
  have "?dl - 6 = 0 \<or> (\<exists>j<tb. burst_at d (reads (snd h) + j) \<noteq> 0)" using st by blast
  from recv_fifo_live[OF fair' room2 this, of "[]"]
  obtain body where B: "fst bd = Inr body" unfolding bd_def ..
  have good: "\<not> (declared_length hdr < 6 \<or> capacity < declared_length hdr)"
    unfolding dh using lo hi by simp
  have t: "fst (tis_recv d ts slow capacity e) = Inr (hdr @ body)"
    unfolding unf using fw H good B[unfolded bd_def] by (simp add: dh)
  from tis_recv_inv[of d ts slow capacity e]
  obtain zs where Q: "bus_ops (snd (tis_recv d ts slow capacity e)) = bus_ops e @ zs
        \<and> list_all within_burst zs
        \<and> (\<exists>k. fifo_got zs = take k (drop (taken e) (response d)))
        \<and> (\<forall>bytes. fst (tis_recv d ts slow capacity e) = Inr bytes \<longrightarrow>
              bytes = fifo_got zs \<and> length bytes = declared_length bytes
              \<and> 6 \<le> length bytes \<and> length bytes \<le> capacity)
        \<and> (length (fifo_got zs) \<le> 6
            \<or> (6 \<le> declared_length (take 6 (fifo_got zs))
                \<and> declared_length (take 6 (fifo_got zs)) \<le> capacity))
        \<and> (fst (tis_recv d ts slow capacity e) = Inl MalformedResponse \<longrightarrow>
              length (fifo_got zs) = 6 \<and> register_writes zs = []
              \<and> (declared_length (fifo_got zs) < 6 \<or> capacity < declared_length (fifo_got zs)))"
    ..
  note q3 = Q[THEN conjunct2, THEN conjunct2, THEN conjunct1]
  note q4 = Q[THEN conjunct2, THEN conjunct2, THEN conjunct2, THEN conjunct1]
  note q4' = q4[THEN spec, THEN mp, OF t]
  have z: "hdr @ body = fifo_got zs" "length (hdr @ body) = declared_length (hdr @ body)"
    using q4'[THEN conjunct1] q4'[THEN conjunct2, THEN conjunct1] .
  have lh: "length hdr = 6" using hg by simp
  have "declared_length (hdr @ body) = ?dl"
    using declared_length_header[OF lh, of body] dh by simp
  then have len: "length (hdr @ body) = ?dl" using z(2) by simp
  from q3 obtain k' where "fifo_got zs = take k' ?R" ..
  then have "hdr @ body = take k' ?R" unfolding z(1) .
  from take_of_length[OF this] have "hdr @ body = take ?dl ?R" unfolding len .
  then show ?thesis unfolding t by simp
qed

lemma advertised_zero_prefix:
  "(\<forall>j\<in>{lo..<mid}. burst_at d j = 0) \<Longrightarrow> lo \<le> mid \<Longrightarrow>
      advertised d mid hi ys \<Longrightarrow>
   advertised d lo hi ys"
proof (induction d mid hi ys rule: advertised.induct)
  case (1 d mid hi)
  have "burst_at d j = 0" if "j \<in> {lo..<hi}" for j
  proof (cases "j < mid")
    case True
    with that "1.prems"(1) show ?thesis by simp
  next
    case False
    with that "1.prems"(3) show ?thesis by simp
  qed
  then show ?case by simp
next
  case (2 d mid hi b c fin xs)
  from "2.prems"(3) obtain k where k: "k \<in> {mid..<hi}" "\<forall>j\<in>{mid..<k}. burst_at d j
      = 0"
    "burst_at d k = b" "length c \<le> b" "advertised d (Suc k) hi xs" by auto
  have z: "\<forall>j\<in>{lo..<k}. burst_at d j = 0"
  proof
    fix j assume j: "j \<in> {lo..<k}"
    show "burst_at d j = 0"
    proof (cases "j < mid")
      case True
      with j "2.prems"(1) show ?thesis by simp
    next
      case False
      with j k(2) show ?thesis by simp
    qed
  qed
  have "k \<in> {lo..<hi}" using k(1) "2.prems"(2) by simp
  with z k(3,4,5) show ?case unfolding advertised.simps by blast
next
  case (3 d mid hi b c xs)
  from "3.prems"(3) obtain k where k: "k \<in> {mid..<hi}" "\<forall>j\<in>{mid..<k}. burst_at d j
      = 0"
    "burst_at d k = b" "length c \<le> b" "advertised d (Suc k) hi xs" by auto
  have z: "\<forall>j\<in>{lo..<k}. burst_at d j = 0"
  proof
    fix j assume j: "j \<in> {lo..<k}"
    show "burst_at d j = 0"
    proof (cases "j < mid")
      case True
      with j "3.prems"(1) show ?thesis by simp
    next
      case False
      with j k(2) show ?thesis by simp
    qed
  qed
  have "k \<in> {lo..<hi}" using k(1) "3.prems"(2) by simp
  with z k(3,4,5) show ?case unfolding advertised.simps by blast
qed simp_all

lemma advertised_append:
  "advertised d lo mid xs \<Longrightarrow> advertised d mid hi ys \<Longrightarrow> lo \<le> mid
      \<Longrightarrow> mid \<le> hi \<Longrightarrow>
   advertised d lo hi (xs @ ys)"
proof (induction d lo mid xs rule: advertised.induct)
  case (1 d lo mid)
  then show ?case using advertised_zero_prefix[of lo mid d hi ys] by simp
next
  case (2 d lo mid b c fin xs)
  from "2.prems"(1) obtain k where k: "k \<in> {lo..<mid}" "\<forall>j\<in>{lo..<k}. burst_at d j
      = 0"
    "burst_at d k = b" "length c \<le> b" "advertised d (Suc k) mid xs" by auto
  have "advertised d (Suc k) hi (xs @ ys)"
    using "2.IH"[OF k(1) k(5) "2.prems"(2) _ "2.prems"(4)] k(1) by simp
  moreover have "k \<in> {lo..<hi}" using k(1) "2.prems"(4) by simp
  ultimately show ?case using k(2,3,4) unfolding append_Cons advertised.simps by blast
next
  case (3 d lo mid b c xs)
  from "3.prems"(1) obtain k where k: "k \<in> {lo..<mid}" "\<forall>j\<in>{lo..<k}. burst_at d j
      = 0"
    "burst_at d k = b" "length c \<le> b" "advertised d (Suc k) mid xs" by auto
  have "advertised d (Suc k) hi (xs @ ys)"
    using "3.IH"[OF k(1) k(5) "3.prems"(2) _ "3.prems"(4)] k(1) by simp
  moreover have "k \<in> {lo..<hi}" using k(1) "3.prems"(4) by simp
  ultimately show ?case using k(2,3,4) unfolding append_Cons advertised.simps by blast
qed simp_all


lemma new_ops_self: "new_ops e e = []"
  by (simp add: new_ops_def)

lemma new_ops_same_log: "bus_ops e1 = bus_ops e \<Longrightarrow> new_ops e1 e' = new_ops e e'"
  by (simp add: new_ops_def)

lemma send_fifo_reads: "reads e \<le> reads (snd (send_fifo d budget left rem e))"
proof (induction d budget left rem e rule: send_fifo.induct)
  case (1 d budget left rem e)
  define b where "b = burst_at d (reads e)"
  define e1 where "e1 = e\<lparr>reads := Suc (reads e)\<rparr>"
  define n where "n = (if length rem = 1 then 1 else min b (length rem - 1))"
  define e2 where "e2 = e1\<lparr>bus_ops := bus_ops e1 @ [Fifo_write b (take n rem) (length rem =
      1)]\<rparr>"
  have unf: "send_fifo d budget left rem e =
     (if rem = [] then (None, e)
      else if left = 0 then (Some Timeout, e)
      else if b = 0 then send_fifo d budget (left - 1) rem e1
           else send_fifo d budget budget (drop n rem) e2)"
    by (subst send_fifo.simps) (simp add: Let_def b_def e1_def n_def e2_def)
  show ?case
  proof (cases "rem = [] \<or> left = 0")
    case True
    then show ?thesis unfolding unf by auto
  next
    case False
    then have ne: "rem \<noteq> []" and l: "left \<noteq> 0" by auto
    show ?thesis
    proof (cases "b = 0")
      case True
      have r: "send_fifo d budget left rem e = send_fifo d budget (left - 1) rem e1"
        unfolding unf using ne l True by simp
      have "reads e \<le> reads e1" by (simp add: e1_def)
      with "1.IH"(1)[OF ne l b_def e1_def True] show ?thesis unfolding r by simp
    next
      case nz: False
      have r: "send_fifo d budget left rem e = send_fifo d budget budget (drop n rem) e2"
        unfolding unf using ne l nz by simp
      have "reads e \<le> reads e2" by (simp add: e2_def e1_def)
      with "1.IH"(2)[OF ne l b_def e1_def nz n_def e2_def] show ?thesis
        unfolding r by simp
    qed
  qed
qed

lemma send_fifo_adv:
  "advertised d (reads e) (reads (snd (send_fifo d budget left rem e)))
     (new_ops e (snd (send_fifo d budget left rem e)))"
proof (induction d budget left rem e rule: send_fifo.induct)
  case (1 d budget left rem e)
  define b where "b = burst_at d (reads e)"
  define e1 where "e1 = e\<lparr>reads := Suc (reads e)\<rparr>"
  define n where "n = (if length rem = 1 then 1 else min b (length rem - 1))"
  define e2 where "e2 = e1\<lparr>bus_ops := bus_ops e1 @ [Fifo_write b (take n rem) (length rem =
      1)]\<rparr>"
  have unf: "send_fifo d budget left rem e =
     (if rem = [] then (None, e)
      else if left = 0 then (Some Timeout, e)
      else if b = 0 then send_fifo d budget (left - 1) rem e1
           else send_fifo d budget budget (drop n rem) e2)"
    by (subst send_fifo.simps) (simp add: Let_def b_def e1_def n_def e2_def)
  show ?case
  proof (cases "rem = [] \<or> left = 0")
    case True
    then have "snd (send_fifo d budget left rem e) = e" unfolding unf by auto
    then show ?thesis by (simp add: new_ops_self)
  next
    case False
    then have ne: "rem \<noteq> []" and l: "left \<noteq> 0" by auto
    show ?thesis
    proof (cases "b = 0")
      case True
      let ?r = "send_fifo d budget (left - 1) rem e1"
      have r: "send_fifo d budget left rem e = ?r"
        unfolding unf using ne l True by simp
      have o: "bus_ops e1 = bus_ops e" and rd: "reads e1 = Suc (reads e)"
        by (simp_all add: e1_def)
      from "1.IH"(1)[OF ne l b_def e1_def True]
      have ih: "advertised d (Suc (reads e)) (reads (snd ?r)) (new_ops e (snd ?r))"
        unfolding rd new_ops_same_log[OF o] .
      have z: "\<forall>j\<in>{reads e..<Suc (reads e)}. burst_at d j = 0"
        using True by (simp add: b_def)
      show ?thesis unfolding r
        by (rule advertised_zero_prefix[OF z _ ih]) simp
    next
      case nz: False
      let ?r = "send_fifo d budget budget (drop n rem) e2"
      let ?F = "Fifo_write b (take n rem) (length rem = 1)"
      have r: "send_fifo d budget left rem e = ?r"
        unfolding unf using ne l nz by simp
      have o: "bus_ops e2 = bus_ops e @ [?F]" and rd: "reads e2 = Suc (reads e)"
        by (simp_all add: e2_def e1_def)
      from send_fifo_inv[of d budget budget "drop n rem" e2]
      obtain ys where P: "bus_ops (snd ?r) = bus_ops e2 @ ys
        \<and> list_all within_burst ys
        \<and> (\<exists>k. fifo_written ys = take k (drop n rem))
        \<and> (fst ?r = None \<longrightarrow> fifo_written ys = drop n rem)" ..
      note p1 = P[THEN conjunct1]
      have n2: "new_ops e2 (snd ?r) = ys" using p1 by (rule new_ops_append)
      have "bus_ops (snd ?r) = bus_ops e @ (?F # ys)" unfolding p1 o by simp
      then have n1: "new_ops e (snd ?r) = ?F # ys" by (rule new_ops_append)
      from "1.IH"(2)[OF ne l b_def e1_def nz n_def e2_def]
      have ih: "advertised d (Suc (reads e)) (reads (snd ?r)) ys" unfolding rd n2 .
      have "reads e2 \<le> reads (snd ?r)" by (rule send_fifo_reads)
      then have k: "reads e \<in> {reads e..<reads (snd ?r)}" unfolding rd by simp
      have nb: "n \<le> b" using nz ne by (auto simp: n_def Suc_leI)
      have le: "length (take n rem) \<le> b" using nb by simp
      have bk: "burst_at d (reads e) = b" by (simp add: b_def)
      have z: "\<forall>j\<in>{reads e..<reads e}. burst_at d j = 0" by simp
      have "\<exists>k\<in>{reads e..<reads (snd ?r)}. (\<forall>j\<in>{reads e..<k}. burst_at d j
          = 0)
              \<and> burst_at d k = b \<and> length (take n rem) \<le> b \<and> advertised d (Suc
                  k) (reads (snd ?r)) ys"
        by (rule bexI[OF _ k]) (intro conjI z bk le ih)
      then show ?thesis unfolding r n1 advertised.simps .
    qed
  qed
qed

lemma send_fifo_stuck:
  "rem \<noteq> [] \<Longrightarrow> \<forall>j<left. burst_at d (reads e + j) = 0 \<Longrightarrow>
   send_fifo d budget left rem e = (Some Timeout, e\<lparr>reads := reads e + left\<rparr>)"
proof (induction d budget left rem e rule: send_fifo.induct)
  case (1 d budget left rem e)
  define b where "b = burst_at d (reads e)"
  define e1 where "e1 = e\<lparr>reads := Suc (reads e)\<rparr>"
  define n where "n = (if length rem = 1 then 1 else min b (length rem - 1))"
  define e2 where "e2 = e1\<lparr>bus_ops := bus_ops e1 @ [Fifo_write b (take n rem) (length rem =
      1)]\<rparr>"
  have unf: "send_fifo d budget left rem e =
     (if rem = [] then (None, e)
      else if left = 0 then (Some Timeout, e)
      else if b = 0 then send_fifo d budget (left - 1) rem e1
           else send_fifo d budget budget (drop n rem) e2)"
    by (subst send_fifo.simps) (simp add: Let_def b_def e1_def n_def e2_def)
  note ne = "1.prems"(1) and z = "1.prems"(2)
  show ?case
  proof (cases "left = 0")
    case True
    then show ?thesis unfolding unf using ne by simp
  next
    case l: False
    then have "0 < left" by simp
    with z have b0: "b = 0" unfolding b_def by force
    have r: "send_fifo d budget left rem e = send_fifo d budget (left - 1) rem e1"
      unfolding unf using ne l b0 by simp
    have z1: "\<forall>j<left - 1. burst_at d (reads e1 + j) = 0"
    proof (intro allI impI)
      fix j assume "j < left - 1"
      then have "Suc j < left" by simp
      with z have "burst_at d (reads e + Suc j) = 0" by blast
      then show "burst_at d (reads e1 + j) = 0" by (simp add: e1_def)
    qed
    have "e1\<lparr>reads := reads e1 + (left - 1)\<rparr> = e\<lparr>reads := reads e +
        left\<rparr>"
      using l by (simp add: e1_def)
    with "1.IH"(1)[OF ne l b_def e1_def b0 ne z1] show ?thesis unfolding r by simp
  qed
qed

lemma send_fifo_timeout_only:
  "fst (send_fifo d budget left rem e) \<noteq> None \<Longrightarrow>
   fst (send_fifo d budget left rem e) = Some Timeout
   \<and> (\<exists>k m. reads (snd (send_fifo d budget left rem e)) = k + m
          \<and> (\<forall>j<m. burst_at d (k + j) = 0)
          \<and> ((k = reads e \<and> m = left) \<or> (reads e < k \<and> m = budget)))"
proof (induction d budget left rem e rule: send_fifo.induct)
  case (1 d budget left rem e)
  define b where "b = burst_at d (reads e)"
  define e1 where "e1 = e\<lparr>reads := Suc (reads e)\<rparr>"
  define n where "n = (if length rem = 1 then 1 else min b (length rem - 1))"
  define e2 where "e2 = e1\<lparr>bus_ops := bus_ops e1 @ [Fifo_write b (take n rem) (length rem =
      1)]\<rparr>"
  have unf: "send_fifo d budget left rem e =
     (if rem = [] then (None, e)
      else if left = 0 then (Some Timeout, e)
      else if b = 0 then send_fifo d budget (left - 1) rem e1
           else send_fifo d budget budget (drop n rem) e2)"
    by (subst send_fifo.simps) (simp add: Let_def b_def e1_def n_def e2_def)
  note f = "1.prems"
  have ne: "rem \<noteq> []" using f unfolding unf by (auto split: if_splits)
  show ?case
  proof (cases "left = 0")
    case True
    then have r: "send_fifo d budget left rem e = (Some Timeout, e)" unfolding unf using ne by simp
    have "reads e = reads e + 0 \<and> (\<forall>j<0. burst_at d (reads e + j) = 0)
          \<and> ((reads e = reads e \<and> (0::nat) = left) \<or> (reads e < reads e \<and> 0 =
              budget))"
      using True by simp
    then have "\<exists>k m. reads e = k + m \<and> (\<forall>j<m. burst_at d (k + j) = 0)
          \<and> ((k = reads e \<and> m = left) \<or> (reads e < k \<and> m = budget))" by blast
    then show ?thesis unfolding r by simp
  next
    case l: False
    show ?thesis
    proof (cases "b = 0")
      case True
      let ?r = "send_fifo d budget (left - 1) rem e1"
      have r: "send_fifo d budget left rem e = ?r"
        unfolding unf using ne l True by simp
      have rd: "reads e1 = Suc (reads e)" by (simp add: e1_def)
      from f have f': "fst ?r \<noteq> None" unfolding r .
      note ih = "1.IH"(1)[OF ne l b_def e1_def True f']
      from ih[THEN conjunct2] obtain k m where km: "reads (snd ?r) = k + m"
        "\<forall>j<m. burst_at d (k + j) = 0"
        "(k = reads e1 \<and> m = left - 1) \<or> (reads e1 < k \<and> m = budget)" by blast
      have "\<exists>k m. reads (snd ?r) = k + m \<and> (\<forall>j<m. burst_at d (k + j) = 0)
          \<and> ((k = reads e \<and> m = left) \<or> (reads e < k \<and> m = budget))"
      proof (cases "k = reads e1 \<and> m = left - 1")
        case same: True
        have a: "reads (snd ?r) = reads e + left" using km(1) same rd l by simp
        have z: "\<forall>j<left. burst_at d (reads e + j) = 0"
        proof (intro allI impI)
          fix j assume j: "j < left"
          show "burst_at d (reads e + j) = 0"
          proof (cases j)
            case 0
            then show ?thesis using True by (simp add: b_def)
          next
            case (Suc j')
            with j have "j' < m" using same by simp
            with km(2) have "burst_at d (k + j') = 0" by blast
            then show ?thesis using same rd Suc by simp
          qed
        qed
        show ?thesis
          by (rule exI[of _ "reads e"], rule exI[of _ left]) (intro conjI a z disjI1 refl)
      next
        case False
        with km(3) have o: "reads e1 < k" "m = budget" by blast+
        then have "reads e < k" using rd by simp
        with km(1,2) o(2) show ?thesis by blast
      qed
      with ih[THEN conjunct1] show ?thesis unfolding r by blast
    next
      case nz: False
      let ?r = "send_fifo d budget budget (drop n rem) e2"
      have r: "send_fifo d budget left rem e = ?r"
        unfolding unf using ne l nz by simp
      have rd: "reads e2 = Suc (reads e)" by (simp add: e2_def e1_def)
      from f have f': "fst ?r \<noteq> None" unfolding r .
      note ih = "1.IH"(2)[OF ne l b_def e1_def nz n_def e2_def f']
      from ih[THEN conjunct2] obtain k m where km: "reads (snd ?r) = k + m"
        "\<forall>j<m. burst_at d (k + j) = 0"
        "(k = reads e2 \<and> m = budget) \<or> (reads e2 < k \<and> m = budget)" by blast
      from km(3) have "reads e < k" "m = budget" using rd by auto
      with km(1,2) have "\<exists>k m. reads (snd ?r) = k + m \<and> (\<forall>j<m. burst_at d (k
          + j) = 0)
          \<and> ((k = reads e \<and> m = left) \<or> (reads e < k \<and> m = budget))" by blast
      with ih[THEN conjunct1] show ?thesis unfolding r by blast
    qed
  qed
qed


lemma recv_fifo_reads: "reads e \<le> reads (snd (recv_fifo d budget left need e acc))"
proof (induction d budget left need e acc rule: recv_fifo.induct)
  case (1 d budget left need e acc)
  define b where "b = burst_at d (reads e)"
  define e1 where "e1 = e\<lparr>reads := Suc (reads e)\<rparr>"
  define c where "c = take (min b need) (drop (taken e1) (response d))"
  define e2 where "e2 = e1\<lparr>taken := taken e1 + length c, bus_ops := bus_ops e1 @ [Fifo_read
      b c]\<rparr>"
  have unf: "recv_fifo d budget left need e acc =
     (if need = 0 then (Inr acc, e)
      else if length (response d) \<le> taken e then (Inl IoError, e)
      else if left = 0 then (Inl Timeout, e)
      else if b = 0 then recv_fifo d budget (left - 1) need e1 acc
           else recv_fifo d budget budget (need - length c) e2 (acc @ c))"
    by (subst recv_fifo.simps) (simp add: Let_def b_def e1_def c_def e2_def)
  show ?case
  proof (cases "need = 0 \<or> length (response d) \<le> taken e \<or> left = 0")
    case True
    then show ?thesis unfolding unf by auto
  next
    case False
    then have nd: "need \<noteq> 0" and av: "\<not> length (response d) \<le> taken e" and l:
        "left \<noteq> 0"
      by auto
    show ?thesis
    proof (cases "b = 0")
      case True
      have r: "recv_fifo d budget left need e acc = recv_fifo d budget (left - 1) need e1 acc"
        unfolding unf using nd av l True by simp
      have "reads e \<le> reads e1" by (simp add: e1_def)
      with "1.IH"(1)[OF nd av l b_def e1_def True] show ?thesis unfolding r by simp
    next
      case nz: False
      have r: "recv_fifo d budget left need e acc =
               recv_fifo d budget budget (need - length c) e2 (acc @ c)"
        unfolding unf using nd av l nz by simp
      have "reads e \<le> reads e2" by (simp add: e2_def e1_def)
      with "1.IH"(2)[OF nd av l b_def e1_def nz c_def e2_def] show ?thesis unfolding r by simp
    qed
  qed
qed

lemma recv_fifo_adv:
  "advertised d (reads e) (reads (snd (recv_fifo d budget left need e acc)))
     (new_ops e (snd (recv_fifo d budget left need e acc)))"
proof (induction d budget left need e acc rule: recv_fifo.induct)
  case (1 d budget left need e acc)
  define b where "b = burst_at d (reads e)"
  define e1 where "e1 = e\<lparr>reads := Suc (reads e)\<rparr>"
  define c where "c = take (min b need) (drop (taken e1) (response d))"
  define e2 where "e2 = e1\<lparr>taken := taken e1 + length c, bus_ops := bus_ops e1 @ [Fifo_read
      b c]\<rparr>"
  have unf: "recv_fifo d budget left need e acc =
     (if need = 0 then (Inr acc, e)
      else if length (response d) \<le> taken e then (Inl IoError, e)
      else if left = 0 then (Inl Timeout, e)
      else if b = 0 then recv_fifo d budget (left - 1) need e1 acc
           else recv_fifo d budget budget (need - length c) e2 (acc @ c))"
    by (subst recv_fifo.simps) (simp add: Let_def b_def e1_def c_def e2_def)
  show ?case
  proof (cases "need = 0 \<or> length (response d) \<le> taken e \<or> left = 0")
    case True
    then have "snd (recv_fifo d budget left need e acc) = e" unfolding unf by auto
    then show ?thesis by (simp add: new_ops_self)
  next
    case False
    then have nd: "need \<noteq> 0" and av: "\<not> length (response d) \<le> taken e" and l:
        "left \<noteq> 0"
      by auto
    show ?thesis
    proof (cases "b = 0")
      case True
      let ?r = "recv_fifo d budget (left - 1) need e1 acc"
      have r: "recv_fifo d budget left need e acc = ?r"
        unfolding unf using nd av l True by simp
      have o: "bus_ops e1 = bus_ops e" and rd: "reads e1 = Suc (reads e)"
        by (simp_all add: e1_def)
      from "1.IH"(1)[OF nd av l b_def e1_def True]
      have ih: "advertised d (Suc (reads e)) (reads (snd ?r)) (new_ops e (snd ?r))"
        unfolding rd new_ops_same_log[OF o] .
      have z: "\<forall>j\<in>{reads e..<Suc (reads e)}. burst_at d j = 0"
        using True by (simp add: b_def)
      show ?thesis unfolding r
        by (rule advertised_zero_prefix[OF z _ ih]) simp
    next
      case nz: False
      let ?r = "recv_fifo d budget budget (need - length c) e2 (acc @ c)"
      let ?F = "Fifo_read b c"
      have r: "recv_fifo d budget left need e acc = ?r"
        unfolding unf using nd av l nz by simp
      have o: "bus_ops e2 = bus_ops e @ [?F]" and rd: "reads e2 = Suc (reads e)"
        by (simp_all add: e2_def e1_def)
      from recv_fifo_inv[of d budget budget "need - length c" e2 "acc @ c"]
      obtain ys where p1: "bus_ops (snd ?r) = bus_ops e2 @ ys" by blast
      have n2: "new_ops e2 (snd ?r) = ys" using p1 by (rule new_ops_append)
      have "bus_ops (snd ?r) = bus_ops e @ (?F # ys)" unfolding p1 o by simp
      then have n1: "new_ops e (snd ?r) = ?F # ys" by (rule new_ops_append)
      from "1.IH"(2)[OF nd av l b_def e1_def nz c_def e2_def]
      have ih: "advertised d (Suc (reads e)) (reads (snd ?r)) ys" unfolding rd n2 .
      have "reads e2 \<le> reads (snd ?r)" by (rule recv_fifo_reads)
      then have k: "reads e \<in> {reads e..<reads (snd ?r)}" unfolding rd by simp
      have le: "length c \<le> b" by (simp add: c_def)
      have bk: "burst_at d (reads e) = b" by (simp add: b_def)
      have z: "\<forall>j\<in>{reads e..<reads e}. burst_at d j = 0" by simp
      have "\<exists>k\<in>{reads e..<reads (snd ?r)}. (\<forall>j\<in>{reads e..<k}. burst_at d j
          = 0)
              \<and> burst_at d k = b \<and> length c \<le> b \<and> advertised d (Suc k) (reads
                  (snd ?r)) ys"
        by (rule bexI[OF _ k]) (intro conjI z bk le ih)
      then show ?thesis unfolding r n1 advertised.simps .
    qed
  qed
qed

lemma recv_fifo_stuck:
  "need \<noteq> 0 \<Longrightarrow> taken e < length (response d) \<Longrightarrow>
   \<forall>j<left. burst_at d (reads e + j) = 0 \<Longrightarrow>
   recv_fifo d budget left need e acc = (Inl Timeout, e\<lparr>reads := reads e + left\<rparr>)"
proof (induction d budget left need e acc rule: recv_fifo.induct)
  case (1 d budget left need e acc)
  define b where "b = burst_at d (reads e)"
  define e1 where "e1 = e\<lparr>reads := Suc (reads e)\<rparr>"
  define c where "c = take (min b need) (drop (taken e1) (response d))"
  define e2 where "e2 = e1\<lparr>taken := taken e1 + length c, bus_ops := bus_ops e1 @ [Fifo_read
      b c]\<rparr>"
  have unf: "recv_fifo d budget left need e acc =
     (if need = 0 then (Inr acc, e)
      else if length (response d) \<le> taken e then (Inl IoError, e)
      else if left = 0 then (Inl Timeout, e)
      else if b = 0 then recv_fifo d budget (left - 1) need e1 acc
           else recv_fifo d budget budget (need - length c) e2 (acc @ c))"
    by (subst recv_fifo.simps) (simp add: Let_def b_def e1_def c_def e2_def)
  note nd = "1.prems"(1) and tk = "1.prems"(2) and z = "1.prems"(3)
  from tk have av: "\<not> length (response d) \<le> taken e" by simp
  show ?case
  proof (cases "left = 0")
    case True
    then show ?thesis unfolding unf using nd av by simp
  next
    case l: False
    then have "0 < left" by simp
    with z have b0: "b = 0" unfolding b_def by force
    have r: "recv_fifo d budget left need e acc = recv_fifo d budget (left - 1) need e1 acc"
      unfolding unf using nd av l b0 by simp
    have tk1: "taken e1 < length (response d)" using tk by (simp add: e1_def)
    have z1: "\<forall>j<left - 1. burst_at d (reads e1 + j) = 0"
    proof (intro allI impI)
      fix j assume "j < left - 1"
      then have "Suc j < left" by simp
      with z have "burst_at d (reads e + Suc j) = 0" by blast
      then show "burst_at d (reads e1 + j) = 0" by (simp add: e1_def)
    qed
    have "e1\<lparr>reads := reads e1 + (left - 1)\<rparr> = e\<lparr>reads := reads e +
        left\<rparr>"
      using l by (simp add: e1_def)
    with "1.IH"(1)[OF nd av l b_def e1_def b0 nd tk1 z1] show ?thesis unfolding r by simp
  qed
qed

lemma recv_fifo_timeout_only:
  "fst (recv_fifo d budget left need e acc) = Inl Timeout \<Longrightarrow>
   \<exists>k m. reads (snd (recv_fifo d budget left need e acc)) = k + m
          \<and> (\<forall>j<m. burst_at d (k + j) = 0)
          \<and> ((k = reads e \<and> m = left) \<or> (reads e < k \<and> m = budget))"
proof (induction d budget left need e acc rule: recv_fifo.induct)
  case (1 d budget left need e acc)
  define b where "b = burst_at d (reads e)"
  define e1 where "e1 = e\<lparr>reads := Suc (reads e)\<rparr>"
  define c where "c = take (min b need) (drop (taken e1) (response d))"
  define e2 where "e2 = e1\<lparr>taken := taken e1 + length c, bus_ops := bus_ops e1 @ [Fifo_read
      b c]\<rparr>"
  have unf: "recv_fifo d budget left need e acc =
     (if need = 0 then (Inr acc, e)
      else if length (response d) \<le> taken e then (Inl IoError, e)
      else if left = 0 then (Inl Timeout, e)
      else if b = 0 then recv_fifo d budget (left - 1) need e1 acc
           else recv_fifo d budget budget (need - length c) e2 (acc @ c))"
    by (subst recv_fifo.simps) (simp add: Let_def b_def e1_def c_def e2_def)
  note f = "1.prems"
  have nd: "need \<noteq> 0" and av: "\<not> length (response d) \<le> taken e"
    using f unfolding unf by (auto split: if_splits)
  show ?case
  proof (cases "left = 0")
    case True
    then have r: "recv_fifo d budget left need e acc = (Inl Timeout, e)"
      unfolding unf using nd av by simp
    have "reads e = reads e + 0 \<and> (\<forall>j<0. burst_at d (reads e + j) = 0)
          \<and> ((reads e = reads e \<and> (0::nat) = left) \<or> (reads e < reads e \<and> 0 =
              budget))"
      using True by simp
    then have "\<exists>k m. reads e = k + m \<and> (\<forall>j<m. burst_at d (k + j) = 0)
          \<and> ((k = reads e \<and> m = left) \<or> (reads e < k \<and> m = budget))" by blast
    then show ?thesis unfolding r by simp
  next
    case l: False
    show ?thesis
    proof (cases "b = 0")
      case True
      let ?r = "recv_fifo d budget (left - 1) need e1 acc"
      have r: "recv_fifo d budget left need e acc = ?r"
        unfolding unf using nd av l True by simp
      have rd: "reads e1 = Suc (reads e)" by (simp add: e1_def)
      from f have f': "fst ?r = Inl Timeout" unfolding r .
      from "1.IH"(1)[OF nd av l b_def e1_def True f']
      obtain k m where km: "reads (snd ?r) = k + m"
        "\<forall>j<m. burst_at d (k + j) = 0"
        "(k = reads e1 \<and> m = left - 1) \<or> (reads e1 < k \<and> m = budget)" by blast
      have "\<exists>k m. reads (snd ?r) = k + m \<and> (\<forall>j<m. burst_at d (k + j) = 0)
          \<and> ((k = reads e \<and> m = left) \<or> (reads e < k \<and> m = budget))"
      proof (cases "k = reads e1 \<and> m = left - 1")
        case same: True
        have a: "reads (snd ?r) = reads e + left" using km(1) same rd l by simp
        have z: "\<forall>j<left. burst_at d (reads e + j) = 0"
        proof (intro allI impI)
          fix j assume j: "j < left"
          show "burst_at d (reads e + j) = 0"
          proof (cases j)
            case 0
            then show ?thesis using True by (simp add: b_def)
          next
            case (Suc j')
            with j have "j' < m" using same by simp
            with km(2) have "burst_at d (k + j') = 0" by blast
            then show ?thesis using same rd Suc by simp
          qed
        qed
        show ?thesis
          by (rule exI[of _ "reads e"], rule exI[of _ left]) (intro conjI a z disjI1 refl)
      next
        case False
        with km(3) have o: "reads e1 < k" "m = budget" by blast+
        then have "reads e < k" using rd by simp
        with km(1,2) o(2) show ?thesis by blast
      qed
      then show ?thesis unfolding r .
    next
      case nz: False
      let ?r = "recv_fifo d budget budget (need - length c) e2 (acc @ c)"
      have r: "recv_fifo d budget left need e acc = ?r"
        unfolding unf using nd av l nz by simp
      have rd: "reads e2 = Suc (reads e)" by (simp add: e2_def e1_def)
      from f have f': "fst ?r = Inl Timeout" unfolding r .
      from "1.IH"(2)[OF nd av l b_def e1_def nz c_def e2_def f']
      obtain k m where km: "reads (snd ?r) = k + m"
        "\<forall>j<m. burst_at d (k + j) = 0"
        "(k = reads e2 \<and> m = budget) \<or> (reads e2 < k \<and> m = budget)" by blast
      from km(3) have "reads e < k" "m = budget" using rd by auto
      with km(1,2) have "\<exists>k m. reads (snd ?r) = k + m \<and> (\<forall>j<m. burst_at d (k
          + j) = 0)
          \<and> ((k = reads e \<and> m = left) \<or> (reads e < k \<and> m = budget))" by blast
      then show ?thesis unfolding r .
    qed
  qed
qed


lemma advertised_snoc_go: "advertised d lo hi (ys @ [Assert_go]) = advertised d lo hi ys"
proof (induction ys arbitrary: lo)
  case Nil
  show ?case by simp
next
  case (Cons x ys)
  then show ?case by (cases x) simp_all
qed

lemma advertised_snoc_deassert:
  "advertised d lo hi (ys @ [Deassert_command_ready]) = advertised d lo hi ys"
proof (induction ys arbitrary: lo)
  case Nil
  show ?case by simp
next
  case (Cons x ys)
  then show ?case by (cases x) simp_all
qed

lemma send_fifo_short:
  "fst (send_fifo d budget left rem e) \<noteq> None \<Longrightarrow>
   length (fifo_written (new_ops e (snd (send_fifo d budget left rem e)))) < length rem"
proof (induction d budget left rem e rule: send_fifo.induct)
  case (1 d budget left rem e)
  define b where "b = burst_at d (reads e)"
  define e1 where "e1 = e\<lparr>reads := Suc (reads e)\<rparr>"
  define n where "n = (if length rem = 1 then 1 else min b (length rem - 1))"
  define e2 where "e2 = e1\<lparr>bus_ops := bus_ops e1 @ [Fifo_write b (take n rem) (length rem =
      1)]\<rparr>"
  have unf: "send_fifo d budget left rem e =
     (if rem = [] then (None, e)
      else if left = 0 then (Some Timeout, e)
      else if b = 0 then send_fifo d budget (left - 1) rem e1
           else send_fifo d budget budget (drop n rem) e2)"
    by (subst send_fifo.simps) (simp add: Let_def b_def e1_def n_def e2_def)
  note f = "1.prems"
  have ne: "rem \<noteq> []" using f unfolding unf by (auto split: if_splits)
  show ?case
  proof (cases "left = 0")
    case True
    then have r: "send_fifo d budget left rem e = (Some Timeout, e)" unfolding unf using ne by simp
    show ?thesis unfolding r using ne by (simp add: new_ops_self)
  next
    case l: False
    show ?thesis
    proof (cases "b = 0")
      case True
      let ?r = "send_fifo d budget (left - 1) rem e1"
      have r: "send_fifo d budget left rem e = ?r"
        unfolding unf using ne l True by simp
      have o: "bus_ops e1 = bus_ops e" by (simp add: e1_def)
      from f have f': "fst ?r \<noteq> None" unfolding r .
      from "1.IH"(1)[OF ne l b_def e1_def True f'] show ?thesis
        unfolding r new_ops_same_log[OF o] .
    next
      case nz: False
      let ?r = "send_fifo d budget budget (drop n rem) e2"
      let ?F = "Fifo_write b (take n rem) (length rem = 1)"
      have r: "send_fifo d budget left rem e = ?r"
        unfolding unf using ne l nz by simp
      have o: "bus_ops e2 = bus_ops e @ [?F]" by (simp add: e2_def e1_def)
      from f have f': "fst ?r \<noteq> None" unfolding r .
      from send_fifo_inv[of d budget budget "drop n rem" e2]
      obtain ys where p1: "bus_ops (snd ?r) = bus_ops e2 @ ys" by blast
      have n2: "new_ops e2 (snd ?r) = ys" using p1 by (rule new_ops_append)
      have "bus_ops (snd ?r) = bus_ops e @ (?F # ys)" unfolding p1 o by simp
      then have n1: "new_ops e (snd ?r) = ?F # ys" by (rule new_ops_append)
      from "1.IH"(2)[OF ne l b_def e1_def nz n_def e2_def f']
      have ih: "length (fifo_written ys) < length rem - n" unfolding n2 by simp
      then show ?thesis unfolding r n1 by simp
    qed
  qed
qed

lemma tis_send_phase:
  assumes loc: "fst (request_locality d ts n e) = None"
    and rdy: "fst (send_fifo_entry d ts n e)"
  shows "fst (tis_send d ts n buf e) =
           fst (send_fifo d (timeout_burst ts) (timeout_burst ts) buf (snd (send_fifo_entry d ts n
               e)))"
    and "reads (snd (tis_send d ts n buf e)) =
           reads (snd (send_fifo d (timeout_burst ts) (timeout_burst ts) buf
                    (snd (send_fifo_entry d ts n e))))"
    and "fifo_written (new_ops e (snd (tis_send d ts n buf e))) =
           fifo_written (new_ops (snd (send_fifo_entry d ts n e))
              (snd (send_fifo d (timeout_burst ts) (timeout_burst ts) buf
                    (snd (send_fifo_entry d ts n e)))))"
proof -
  define r1 where "r1 = request_locality d ts n e"
  define xs where "xs = (if locality e = Some n then [] else [Request_locality n])"
  define w where "w = send_fifo_entry d ts n e"
  define r where "r = send_fifo d (timeout_burst ts) (timeout_burst ts) buf (snd w)"
  have unf: "tis_send d ts n buf e =
     (if fst r1 \<noteq> None then r1
      else if \<not> fst w then (Some NotReady, snd w)
      else if fst r \<noteq> None then r
      else (None, (snd r)\<lparr>bus_ops := bus_ops (snd r) @ [Assert_go]\<rparr>))"
    unfolding r_def w_def send_fifo_entry_def r1_def by (rule tis_send_unfold)
  have l: "fst r1 = None" using loc unfolding r1_def .
  have fw: "fst w" using rdy unfolding w_def .
  have t: "tis_send d ts n buf e =
     (if fst r \<noteq> None then r else (None, (snd r)\<lparr>bus_ops := bus_ops (snd r) @
         [Assert_go]\<rparr>))"
    unfolding unf using l fw by simp
  have o1: "bus_ops (snd r1) = bus_ops e @ xs"
    unfolding r1_def xs_def by (rule request_locality_ops)
  have x: "fifo_written xs = []" by (simp add: xs_def)
  have ow: "bus_ops (snd w) = bus_ops e @ xs @ [Assert_command_ready]"
    unfolding w_def send_fifo_entry_def wait_for_ops using o1 by (simp add: r1_def)
  from send_fifo_inv[of d "timeout_burst ts" "timeout_burst ts" buf "snd w"]
  obtain ys where p1: "bus_ops (snd r) = bus_ops (snd w) @ ys" unfolding r_def by blast
  have nw: "new_ops (snd w) (snd r) = ys" using p1 by (rule new_ops_append)
  show "fst (tis_send d ts n buf e) =
           fst (send_fifo d (timeout_burst ts) (timeout_burst ts) buf (snd (send_fifo_entry d ts n
               e)))"
    unfolding t r_def[symmetric, unfolded w_def] by auto
  show "reads (snd (tis_send d ts n buf e)) =
           reads (snd (send_fifo d (timeout_burst ts) (timeout_burst ts) buf
                    (snd (send_fifo_entry d ts n e))))"
    unfolding t r_def[symmetric, unfolded w_def] by simp
  have "fifo_written (new_ops e (snd (tis_send d ts n buf e))) = fifo_written ys"
  proof (cases "fst r = None")
    case True
    then have "bus_ops (snd (tis_send d ts n buf e)) =
        bus_ops e @ (xs @ [Assert_command_ready] @ ys @ [Assert_go])"
      unfolding t using p1 ow by simp
    from new_ops_append[OF this] show ?thesis using x by (simp add: fifo_written_append)
  next
    case False
    then have "bus_ops (snd (tis_send d ts n buf e)) =
        bus_ops e @ (xs @ [Assert_command_ready] @ ys)"
      unfolding t using p1 ow by simp
    from new_ops_append[OF this] show ?thesis using x by (simp add: fifo_written_append)
  qed
  then show "fifo_written (new_ops e (snd (tis_send d ts n buf e))) =
           fifo_written (new_ops (snd (send_fifo_entry d ts n e))
              (snd (send_fifo d (timeout_burst ts) (timeout_burst ts) buf
                    (snd (send_fifo_entry d ts n e)))))"
    unfolding nw[unfolded r_def w_def] .
qed

lemma tis_send_adv:
  "advertised d (reads (snd (send_fifo_entry d ts n e))) (reads (snd (tis_send d ts n buf e)))
     (new_ops e (snd (tis_send d ts n buf e)))"
proof -
  define r1 where "r1 = request_locality d ts n e"
  define xs where "xs = (if locality e = Some n then [] else [Request_locality n])"
  define e2 where "e2 = (snd r1)\<lparr>bus_ops := bus_ops (snd r1) @
      [Assert_command_ready]\<rparr>"
  define w where "w = send_fifo_entry d ts n e"
  define r where "r = send_fifo d (timeout_burst ts) (timeout_burst ts) buf (snd w)"
  have wd: "w = wait_for (ready_at d) (timeout_b ts) e2"
    unfolding w_def send_fifo_entry_def e2_def r1_def ..
  have unf: "tis_send d ts n buf e =
     (if fst r1 \<noteq> None then r1
      else if \<not> fst w then (Some NotReady, snd w)
      else if fst r \<noteq> None then r
      else (None, (snd r)\<lparr>bus_ops := bus_ops (snd r) @ [Assert_go]\<rparr>))"
    unfolding r_def w_def send_fifo_entry_def r1_def by (rule tis_send_unfold)
  have o1: "bus_ops (snd r1) = bus_ops e @ xs"
    unfolding r1_def xs_def by (rule request_locality_ops)
  have ow: "bus_ops (snd w) = bus_ops e @ xs @ [Assert_command_ready]"
    unfolding wd wait_for_ops e2_def using o1 by simp
  have rw: "reads (snd r1) \<le> reads (snd w)"
    using wait_for_reads[of e2 "ready_at d" "timeout_b ts"] unfolding wd by (simp add: e2_def)
  from send_fifo_inv[of d "timeout_burst ts" "timeout_burst ts" buf "snd w"]
  obtain ys where p1: "bus_ops (snd r) = bus_ops (snd w) @ ys" unfolding r_def by blast
  have nw: "new_ops (snd w) (snd r) = ys" using p1 by (rule new_ops_append)
  have adv: "advertised d (reads (snd w)) (reads (snd r)) ys"
    using send_fifo_adv[of d "snd w" "timeout_burst ts" "timeout_burst ts" buf]
    unfolding r_def[symmetric] nw .
  have pre: "advertised d lo hi (xs @ [Assert_command_ready] @ zs) = advertised d lo hi zs"
    for lo hi zs by (simp add: xs_def)
  consider (a) "fst r1 \<noteq> None" | (b) "fst r1 = None" "\<not> fst w"
    | (c) "fst r1 = None" "fst w" "fst r \<noteq> None" | (d) "fst r1 = None" "fst w" "fst r = None"
    by blast
  then have "advertised d (reads (snd w)) (reads (snd (tis_send d ts n buf e)))
     (new_ops e (snd (tis_send d ts n buf e)))"
  proof cases
    case a
    then have t: "tis_send d ts n buf e = r1" unfolding unf by simp
    have nn: "new_ops e (snd r1) = xs" using o1 by (rule new_ops_append)
    show ?thesis unfolding t nn using rw by (simp add: xs_def)
  next
    case b
    then have t: "tis_send d ts n buf e = (Some NotReady, snd w)" unfolding unf by simp
    have "bus_ops (snd w) = bus_ops e @ (xs @ [Assert_command_ready] @ [])" using ow by simp
    from new_ops_append[OF this] show ?thesis unfolding t by (simp only: pre snd_conv) simp
  next
    case c
    then have t: "tis_send d ts n buf e = r" unfolding unf by simp
    have "bus_ops (snd r) = bus_ops e @ (xs @ [Assert_command_ready] @ ys)"
      unfolding p1 ow by simp
    from new_ops_append[OF this] show ?thesis unfolding t using adv by (simp only: pre)
  next
    case d
    then have t: "tis_send d ts n buf e = (None, (snd r)\<lparr>bus_ops := bus_ops (snd r) @
        [Assert_go]\<rparr>)"
      unfolding unf by simp
    have "bus_ops (snd (tis_send d ts n buf e)) =
        bus_ops e @ (xs @ [Assert_command_ready] @ (ys @ [Assert_go]))"
      unfolding t using p1 ow by simp
    from new_ops_append[OF this]
    have nn: "new_ops e (snd (tis_send d ts n buf e)) = xs @ [Assert_command_ready] @ (ys @
        [Assert_go])" .
    have rr: "reads (snd (tis_send d ts n buf e)) = reads (snd r)" unfolding t by simp
    show ?thesis unfolding nn rr pre advertised_snoc_go by (rule adv)
  qed
  then show ?thesis unfolding w_def .
qed

lemma tis_send_complete:
  assumes fair: "\<forall>k. \<exists>j<timeout_burst ts. burst_at d (k + j) \<noteq> 0"
    and loc: "fst (request_locality d ts n e) = None"
    and rdy: "fst (send_fifo_entry d ts n e)"
  shows "fst (tis_send d ts n buf e) = None
         \<and> fifo_written (new_ops e (snd (tis_send d ts n buf e))) = buf"
proof -
  let ?w = "send_fifo_entry d ts n e"
  from fair have "\<exists>j<timeout_burst ts. burst_at d (reads (snd ?w) + j) \<noteq> 0" by blast
  then have "buf = [] \<or> (\<exists>j<timeout_burst ts. burst_at d (reads (snd ?w) + j) \<noteq>
      0)" by blast
  from send_fifo_live[OF fair this]
  have "fst (tis_send d ts n buf e) = None" unfolding tis_send_phase(1)[OF loc rdy] .
  moreover from tis_send_inv[of d ts n buf e]
  obtain ys where S: "bus_ops (snd (tis_send d ts n buf e)) = bus_ops e @ ys
        \<and> list_all within_burst ys
        \<and> (\<exists>k. fifo_written ys = take k buf)
        \<and> (fst (tis_send d ts n buf e) = None \<longrightarrow> fifo_written ys = buf)" ..
  have ns: "new_ops e (snd (tis_send d ts n buf e)) = ys"
    using S[THEN conjunct1] by (rule new_ops_append)
  note s4 = S[THEN conjunct2, THEN conjunct2, THEN conjunct2]
  ultimately show ?thesis unfolding ns using s4 by simp
qed

lemma tis_send_stuck:
  assumes loc: "fst (request_locality d ts n e) = None"
    and rdy: "fst (send_fifo_entry d ts n e)"
    and ne: "buf \<noteq> []"
    and z: "\<forall>j<timeout_burst ts. burst_at d (reads (snd (send_fifo_entry d ts n e)) + j) =
        0"
  shows "fst (tis_send d ts n buf e) = Some Timeout
         \<and> fifo_written (new_ops e (snd (tis_send d ts n buf e))) = []
         \<and> reads (snd (tis_send d ts n buf e)) =
             reads (snd (send_fifo_entry d ts n e)) + timeout_burst ts"
proof -
  note st = send_fifo_stuck[OF ne z, of "timeout_burst ts"]
  have a: "fst (tis_send d ts n buf e) = Some Timeout"
    unfolding tis_send_phase(1)[OF loc rdy] st by simp
  have b: "fifo_written (new_ops e (snd (tis_send d ts n buf e))) = []"
    unfolding tis_send_phase(3)[OF loc rdy] st by (simp add: new_ops_def)
  have c: "reads (snd (tis_send d ts n buf e)) =
             reads (snd (send_fifo_entry d ts n e)) + timeout_burst ts"
    unfolding tis_send_phase(2)[OF loc rdy] st by simp
  show ?thesis by (intro conjI a b c)
qed

lemma tis_send_failure:
  assumes loc: "fst (request_locality d ts n e) = None"
    and rdy: "fst (send_fifo_entry d ts n e)"
    and f: "fst (tis_send d ts n buf e) \<noteq> None"
  shows "fst (tis_send d ts n buf e) = Some Timeout
         \<and> length (fifo_written (new_ops e (snd (tis_send d ts n buf e)))) < length buf
         \<and> (\<exists>k. reads (snd (send_fifo_entry d ts n e)) \<le> k
                \<and> reads (snd (tis_send d ts n buf e)) = k + timeout_burst ts
                \<and> (\<forall>j<timeout_burst ts. burst_at d (k + j) = 0))"
proof -
  let ?w = "send_fifo_entry d ts n e"
  let ?r = "send_fifo d (timeout_burst ts) (timeout_burst ts) buf (snd ?w)"
  from f have f': "fst ?r \<noteq> None" unfolding tis_send_phase(1)[OF loc rdy] .
  note to = send_fifo_timeout_only[OF f']
  have a: "fst (tis_send d ts n buf e) = Some Timeout"
    unfolding tis_send_phase(1)[OF loc rdy] by (rule to[THEN conjunct1])
  have b: "length (fifo_written (new_ops e (snd (tis_send d ts n buf e)))) < length buf"
    unfolding tis_send_phase(3)[OF loc rdy] by (rule send_fifo_short[OF f'])
  from to[THEN conjunct2] obtain k m where km: "reads (snd ?r) = k + m"
    "\<forall>j<m. burst_at d (k + j) = 0"
    "(k = reads (snd ?w) \<and> m = timeout_burst ts) \<or> (reads (snd ?w) < k \<and> m =
        timeout_burst ts)"
    by blast
  from km(3) have m: "m = timeout_burst ts" and k: "reads (snd ?w) \<le> k" by auto
  have c: "\<exists>k. reads (snd ?w) \<le> k
                \<and> reads (snd (tis_send d ts n buf e)) = k + timeout_burst ts
                \<and> (\<forall>j<timeout_burst ts. burst_at d (k + j) = 0)"
    unfolding tis_send_phase(2)[OF loc rdy]
    by (rule exI[of _ k]) (intro conjI k km(1)[unfolded m] km(2)[unfolded m])
  show ?thesis by (intro conjI a b c)
qed


lemma tis_recv_cases:
  "tis_recv d ts slow capacity e =
     (if \<not> fst (recv_fifo_entry d ts slow e) then (Inl Timeout, snd (recv_fifo_entry d ts
         slow e))
      else if isl (fst (recv_fifo d (timeout_burst ts) (timeout_burst ts) 6
                     (snd (recv_fifo_entry d ts slow e)) []))
      then (Inl (projl (fst (recv_fifo d (timeout_burst ts) (timeout_burst ts) 6
                     (snd (recv_fifo_entry d ts slow e)) []))),
            snd (recv_fifo d (timeout_burst ts) (timeout_burst ts) 6
                     (snd (recv_fifo_entry d ts slow e)) []))
      else if declared_length (projr (fst (recv_fifo d (timeout_burst ts) (timeout_burst ts) 6
                     (snd (recv_fifo_entry d ts slow e)) []))) < 6
              \<or> capacity < declared_length (projr (fst (recv_fifo d (timeout_burst ts)
                     (timeout_burst ts) 6 (snd (recv_fifo_entry d ts slow e)) [])))
      then (Inl MalformedResponse, snd (recv_fifo d (timeout_burst ts) (timeout_burst ts) 6
                     (snd (recv_fifo_entry d ts slow e)) []))
      else if isl (fst (recv_fifo d (timeout_burst ts) (timeout_burst ts)
                     (declared_length (projr (fst (recv_fifo d (timeout_burst ts)
                        (timeout_burst ts) 6 (snd (recv_fifo_entry d ts slow e)) []))) - 6)
                     (snd (recv_fifo d (timeout_burst ts) (timeout_burst ts) 6
                        (snd (recv_fifo_entry d ts slow e)) [])) []))
      then (Inl (projl (fst (recv_fifo d (timeout_burst ts) (timeout_burst ts)
                     (declared_length (projr (fst (recv_fifo d (timeout_burst ts)
                        (timeout_burst ts) 6 (snd (recv_fifo_entry d ts slow e)) []))) - 6)
                     (snd (recv_fifo d (timeout_burst ts) (timeout_burst ts) 6
                        (snd (recv_fifo_entry d ts slow e)) [])) []))),
            snd (recv_fifo d (timeout_burst ts) (timeout_burst ts)
                     (declared_length (projr (fst (recv_fifo d (timeout_burst ts)
                        (timeout_burst ts) 6 (snd (recv_fifo_entry d ts slow e)) []))) - 6)
                     (snd (recv_fifo d (timeout_burst ts) (timeout_burst ts) 6
                        (snd (recv_fifo_entry d ts slow e)) [])) []))
      else (Inr (projr (fst (recv_fifo d (timeout_burst ts) (timeout_burst ts) 6
                     (snd (recv_fifo_entry d ts slow e)) []))
                 @ projr (fst (recv_fifo d (timeout_burst ts) (timeout_burst ts)
                     (declared_length (projr (fst (recv_fifo d (timeout_burst ts)
                        (timeout_burst ts) 6 (snd (recv_fifo_entry d ts slow e)) []))) - 6)
                     (snd (recv_fifo d (timeout_burst ts) (timeout_burst ts) 6
                        (snd (recv_fifo_entry d ts slow e)) [])) []))),
            (snd (recv_fifo d (timeout_burst ts) (timeout_burst ts)
                     (declared_length (projr (fst (recv_fifo d (timeout_burst ts)
                        (timeout_burst ts) 6 (snd (recv_fifo_entry d ts slow e)) []))) - 6)
                     (snd (recv_fifo d (timeout_burst ts) (timeout_burst ts) 6
                        (snd (recv_fifo_entry d ts slow e)) [])) []))
              \<lparr>bus_ops := bus_ops (snd (recv_fifo d (timeout_burst ts) (timeout_burst ts)
                     (declared_length (projr (fst (recv_fifo d (timeout_burst ts)
                        (timeout_burst ts) 6 (snd (recv_fifo_entry d ts slow e)) []))) - 6)
                     (snd (recv_fifo d (timeout_burst ts) (timeout_burst ts) 6
                        (snd (recv_fifo_entry d ts slow e)) [])) [])) @
                            [Deassert_command_ready]\<rparr>))"
proof -
  define tb where "tb = timeout_burst ts"
  define w where "w = wait_for (avail_at d) (if slow then timeout_d ts else timeout_c ts) e"
  define h where "h = recv_fifo d tb tb 6 (snd w) []"
  define bd where "bd = recv_fifo d tb tb (declared_length (projr (fst h)) - 6) (snd h) []"
  have unf: "tis_recv d ts slow capacity e =
     (if \<not> fst w then (Inl Timeout, snd w)
      else
        (case fst h of
           Inl err \<Rightarrow> (Inl err, snd h)
         | Inr hdr \<Rightarrow>
             if declared_length hdr < 6 \<or> capacity < declared_length hdr
             then (Inl MalformedResponse, snd h)
             else
               (case fst (recv_fifo d tb tb (declared_length hdr - 6) (snd h) []) of
                  Inl err \<Rightarrow> (Inl err, snd (recv_fifo d tb tb (declared_length hdr - 6)
                      (snd h) []))
                | Inr body \<Rightarrow>
                    (Inr (hdr @ body), (snd (recv_fifo d tb tb (declared_length hdr - 6) (snd h)
                        []))
                       \<lparr>bus_ops := bus_ops (snd (recv_fifo d tb tb (declared_length hdr -
                           6) (snd h) []))
                          @ [Deassert_command_ready]\<rparr>))))"
    unfolding h_def w_def tb_def by (rule tis_recv_unfold)
  have "tis_recv d ts slow capacity e =
     (if \<not> fst w then (Inl Timeout, snd w)
      else if isl (fst h) then (Inl (projl (fst h)), snd h)
      else if declared_length (projr (fst h)) < 6 \<or> capacity < declared_length (projr (fst h))
      then (Inl MalformedResponse, snd h)
      else if isl (fst bd) then (Inl (projl (fst bd)), snd bd)
      else (Inr (projr (fst h) @ projr (fst bd)),
            (snd bd)\<lparr>bus_ops := bus_ops (snd bd) @ [Deassert_command_ready]\<rparr>))"
  proof (cases "fst h")
    case (Inl err)
    then show ?thesis unfolding unf by simp
  next
    case (Inr hdr)
    then have b: "bd = recv_fifo d tb tb (declared_length hdr - 6) (snd h) []"
      unfolding bd_def by simp
    show ?thesis
    proof (cases "fst bd")
      case (Inl err)
      then show ?thesis using Inr unfolding unf b by simp
    next
      case r: (Inr body)
      then show ?thesis using Inr unfolding unf b by simp
    qed
  qed
  then show ?thesis unfolding bd_def h_def w_def tb_def recv_fifo_entry_def .
qed


lemma tis_recv_adv:
  "advertised d (reads (snd (recv_fifo_entry d ts slow e)))
     (reads (snd (tis_recv d ts slow capacity e)))
     (new_ops e (snd (tis_recv d ts slow capacity e)))"
proof -
  define tb where "tb = timeout_burst ts"
  define w where "w = recv_fifo_entry d ts slow e"
  define h where "h = recv_fifo d tb tb 6 (snd w) []"
  define bd where "bd = recv_fifo d tb tb (declared_length (projr (fst h)) - 6) (snd h) []"
  have unf: "tis_recv d ts slow capacity e =
     (if \<not> fst w then (Inl Timeout, snd w)
      else if isl (fst h) then (Inl (projl (fst h)), snd h)
      else if declared_length (projr (fst h)) < 6 \<or> capacity < declared_length (projr (fst h))
      then (Inl MalformedResponse, snd h)
      else if isl (fst bd) then (Inl (projl (fst bd)), snd bd)
      else (Inr (projr (fst h) @ projr (fst bd)),
            (snd bd)\<lparr>bus_ops := bus_ops (snd bd) @ [Deassert_command_ready]\<rparr>))"
    unfolding bd_def h_def w_def tb_def by (rule tis_recv_cases)
  have ow: "bus_ops (snd w) = bus_ops e"
    unfolding w_def recv_fifo_entry_def by (rule wait_for_ops)
  from recv_fifo_inv[of d tb tb 6 "snd w" "[]"]
  obtain ys where p1: "bus_ops (snd h) = bus_ops (snd w) @ ys" unfolding h_def by blast
  from recv_fifo_inv[of d tb tb "declared_length (projr (fst h)) - 6" "snd h" "[]"]
  obtain zs where q1: "bus_ops (snd bd) = bus_ops (snd h) @ zs" unfolding bd_def by blast
  have nh: "new_ops (snd w) (snd h) = ys" using p1 by (rule new_ops_append)
  have nb: "new_ops (snd h) (snd bd) = zs" using q1 by (rule new_ops_append)
  have a1: "advertised d (reads (snd w)) (reads (snd h)) ys"
    using recv_fifo_adv[of d "snd w" tb tb 6 "[]"] unfolding h_def[symmetric] nh .
  have a2: "advertised d (reads (snd h)) (reads (snd bd)) zs"
    using recv_fifo_adv[of d "snd h" tb tb "declared_length (projr (fst h)) - 6" "[]"]
    unfolding bd_def[symmetric] nb .
  have r1: "reads (snd w) \<le> reads (snd h)" unfolding h_def by (rule recv_fifo_reads)
  have r2: "reads (snd h) \<le> reads (snd bd)" unfolding bd_def by (rule recv_fifo_reads)
  have a12: "advertised d (reads (snd w)) (reads (snd bd)) (ys @ zs)"
    by (rule advertised_append[OF a1 a2 r1 r2])
  have eh: "new_ops e (snd h) = ys" using p1 unfolding ow by (rule new_ops_append)
  have "bus_ops (snd bd) = bus_ops e @ (ys @ zs)" unfolding q1 p1 ow by simp
  then have eb: "new_ops e (snd bd) = ys @ zs" by (rule new_ops_append)
  have "bus_ops ((snd bd)\<lparr>bus_ops := bus_ops (snd bd) @ [Deassert_command_ready]\<rparr>) =
          bus_ops e @ ((ys @ zs) @ [Deassert_command_ready])"
    unfolding q1 p1 ow by simp
  then have ed: "new_ops e ((snd bd)\<lparr>bus_ops := bus_ops (snd bd) @
      [Deassert_command_ready]\<rparr>) =
          (ys @ zs) @ [Deassert_command_ready]" by (rule new_ops_append)
  have ew: "new_ops e (snd w) = []" using ow by (simp add: new_ops_def)
  consider (a) "\<not> fst w" | (b) "fst w" "isl (fst h)"
    | (c) "fst w" "\<not> isl (fst h)"
          "declared_length (projr (fst h)) < 6 \<or> capacity < declared_length (projr (fst h))"
    | (d) "fst w" "\<not> isl (fst h)"
          "\<not> (declared_length (projr (fst h)) < 6 \<or> capacity < declared_length (projr
              (fst h)))"
          "isl (fst bd)"
    | (f) "fst w" "\<not> isl (fst h)"
          "\<not> (declared_length (projr (fst h)) < 6 \<or> capacity < declared_length (projr
              (fst h)))"
          "\<not> isl (fst bd)"
    by blast
  then have "advertised d (reads (snd w)) (reads (snd (tis_recv d ts slow capacity e)))
     (new_ops e (snd (tis_recv d ts slow capacity e)))"
  proof cases
    case a
    then have t: "snd (tis_recv d ts slow capacity e) = snd w" unfolding unf by simp
    show ?thesis unfolding t ew by simp
  next
    case b
    then have t: "snd (tis_recv d ts slow capacity e) = snd h" unfolding unf by simp
    show ?thesis unfolding t eh by (rule a1)
  next
    case c
    then have t: "snd (tis_recv d ts slow capacity e) = snd h" unfolding unf by simp
    show ?thesis unfolding t eh by (rule a1)
  next
    case d
    then have t: "snd (tis_recv d ts slow capacity e) = snd bd" unfolding unf by simp
    show ?thesis unfolding t eb by (rule a12)
  next
    case f
    then have t: "snd (tis_recv d ts slow capacity e) =
        (snd bd)\<lparr>bus_ops := bus_ops (snd bd) @ [Deassert_command_ready]\<rparr>"
      unfolding unf by simp
    have rr: "reads ((snd bd)\<lparr>bus_ops := bus_ops (snd bd) @
        [Deassert_command_ready]\<rparr>) =
        reads (snd bd)" by simp
    show ?thesis unfolding t ed rr advertised_snoc_deassert by (rule a12)
  qed
  then show ?thesis unfolding w_def .
qed

lemma tis_recv_stuck:
  assumes av: "fst (recv_fifo_entry d ts slow e)"
    and tk: "taken e < length (response d)"
    and z: "\<forall>j<timeout_burst ts. burst_at d (reads (snd (recv_fifo_entry d ts slow e)) +
        j) = 0"
  shows "fst (tis_recv d ts slow capacity e) = Inl Timeout
         \<and> fifo_got (new_ops e (snd (tis_recv d ts slow capacity e))) = []
         \<and> reads (snd (tis_recv d ts slow capacity e)) =
             reads (snd (recv_fifo_entry d ts slow e)) + timeout_burst ts"
proof -
  define w where "w = recv_fifo_entry d ts slow e"
  have ow: "bus_ops (snd w) = bus_ops e" "taken (snd w) = taken e"
    unfolding w_def recv_fifo_entry_def by (rule wait_for_ops)+
  have tk': "taken (snd w) < length (response d)" using tk unfolding ow .
  have six: "(6::nat) \<noteq> 0" by simp
  note st = recv_fifo_stuck[OF six tk' z[folded w_def], of "timeout_burst ts" "[]"]
  have t: "tis_recv d ts slow capacity e =
      (Inl Timeout, (snd w)\<lparr>reads := reads (snd w) + timeout_burst ts\<rparr>)"
    unfolding tis_recv_cases[of d ts slow capacity e] w_def[symmetric] st
    using av[folded w_def] by simp
  show ?thesis unfolding t w_def[symmetric] using ow by (simp add: new_ops_def)
qed

lemma tis_recv_timeout:
  assumes av: "fst (recv_fifo_entry d ts slow e)"
    and f: "fst (tis_recv d ts slow capacity e) = Inl Timeout"
  shows "\<exists>k. reads (snd (recv_fifo_entry d ts slow e)) \<le> k
           \<and> reads (snd (tis_recv d ts slow capacity e)) = k + timeout_burst ts
           \<and> (\<forall>j<timeout_burst ts. burst_at d (k + j) = 0)"
proof -
  define tb where "tb = timeout_burst ts"
  define w where "w = recv_fifo_entry d ts slow e"
  define h where "h = recv_fifo d tb tb 6 (snd w) []"
  define bd where "bd = recv_fifo d tb tb (declared_length (projr (fst h)) - 6) (snd h) []"
  have unf: "tis_recv d ts slow capacity e =
     (if \<not> fst w then (Inl Timeout, snd w)
      else if isl (fst h) then (Inl (projl (fst h)), snd h)
      else if declared_length (projr (fst h)) < 6 \<or> capacity < declared_length (projr (fst h))
      then (Inl MalformedResponse, snd h)
      else if isl (fst bd) then (Inl (projl (fst bd)), snd bd)
      else (Inr (projr (fst h) @ projr (fst bd)),
            (snd bd)\<lparr>bus_ops := bus_ops (snd bd) @ [Deassert_command_ready]\<rparr>))"
    unfolding bd_def h_def w_def tb_def by (rule tis_recv_cases)
  have fw: "fst w" using av unfolding w_def .
  have r1: "reads (snd w) \<le> reads (snd h)" unfolding h_def by (rule recv_fifo_reads)
  have win: "\<exists>k. reads (snd w) \<le> k \<and> reads (snd x) = k + tb \<and>
      (\<forall>j<tb. burst_at d (k + j) = 0)"
    if x: "x = recv_fifo d tb tb need e0 []" and t: "fst x = Inl Timeout"
      and le: "reads (snd w) \<le> reads e0" for x need e0
  proof -
    from recv_fifo_timeout_only[OF t[unfolded x]]
    obtain k m where km: "reads (snd x) = k + m" "\<forall>j<m. burst_at d (k + j) = 0"
      "(k = reads e0 \<and> m = tb) \<or> (reads e0 < k \<and> m = tb)" unfolding x by blast
    from km(3) le have m: "m = tb" and k: "reads (snd w) \<le> k" by auto
    show ?thesis
      by (rule exI[of _ k]) (intro conjI k km(1)[unfolded m] km(2)[unfolded m])
  qed
  consider (b) "isl (fst h)"
    | (c) "\<not> isl (fst h)"
          "declared_length (projr (fst h)) < 6 \<or> capacity < declared_length (projr (fst h))"
    | (d) "\<not> isl (fst h)"
          "\<not> (declared_length (projr (fst h)) < 6 \<or> capacity < declared_length (projr
              (fst h)))"
          "isl (fst bd)"
    | (g) "\<not> isl (fst h)"
          "\<not> (declared_length (projr (fst h)) < 6 \<or> capacity < declared_length (projr
              (fst h)))"
          "\<not> isl (fst bd)"
    by blast
  then have "\<exists>k. reads (snd w) \<le> k
           \<and> reads (snd (tis_recv d ts slow capacity e)) = k + tb
           \<and> (\<forall>j<tb. burst_at d (k + j) = 0)"
  proof cases
    case b
    then have t: "tis_recv d ts slow capacity e = (Inl (projl (fst h)), snd h)"
      unfolding unf using fw by simp
    from f have "projl (fst h) = Timeout" unfolding t by simp
    with b have "fst h = Inl Timeout" by (cases "fst h") simp_all
    from win[OF h_def this order_refl] show ?thesis unfolding t by simp
  next
    case c
    then have t: "tis_recv d ts slow capacity e = (Inl MalformedResponse, snd h)"
      unfolding unf using fw by simp
    from f show ?thesis unfolding t by simp
  next
    case d
    then have t: "tis_recv d ts slow capacity e = (Inl (projl (fst bd)), snd bd)"
      unfolding unf using fw by simp
    from f have "projl (fst bd) = Timeout" unfolding t by simp
    with d(3) have "fst bd = Inl Timeout" by (cases "fst bd") simp_all
    from win[OF bd_def this r1] show ?thesis unfolding t by simp
  next
    case g
    then have t: "fst (tis_recv d ts slow capacity e) = Inr (projr (fst h) @ projr (fst bd))"
      unfolding unf using fw by simp
    from f show ?thesis unfolding t by simp
  qed
  then show ?thesis unfolding w_def tb_def .
qed


lemma send_fifo_window:
  "reads e \<le> p \<Longrightarrow> p < reads (snd (send_fifo d budget left rem e))
      \<Longrightarrow>
   \<forall>j<budget. burst_at d (p + j) = 0 \<Longrightarrow> left \<le> budget \<Longrightarrow>
   fst (send_fifo d budget left rem e) = Some Timeout"
proof (induction d budget left rem e rule: send_fifo.induct)
  case (1 d budget left rem e)
  define b where "b = burst_at d (reads e)"
  define e1 where "e1 = e\<lparr>reads := Suc (reads e)\<rparr>"
  define n where "n = (if length rem = 1 then 1 else min b (length rem - 1))"
  define e2 where "e2 = e1\<lparr>bus_ops := bus_ops e1 @ [Fifo_write b (take n rem) (length rem =
      1)]\<rparr>"
  have unf: "send_fifo d budget left rem e =
     (if rem = [] then (None, e)
      else if left = 0 then (Some Timeout, e)
      else if b = 0 then send_fifo d budget (left - 1) rem e1
           else send_fifo d budget budget (drop n rem) e2)"
    by (subst send_fifo.simps) (simp add: Let_def b_def e1_def n_def e2_def)
  note lo = "1.prems"(1) and hi = "1.prems"(2) and z = "1.prems"(3) and lb = "1.prems"(4)
  have ne: "rem \<noteq> []" and l: "left \<noteq> 0"
    using lo hi unfolding unf by (auto split: if_splits)
  from l lb have bp: "0 < budget" by simp
  with z have zp: "burst_at d p = 0" by force
  show ?case
  proof (cases "b = 0")
    case True
    let ?r = "send_fifo d budget (left - 1) rem e1"
    have r: "send_fifo d budget left rem e = ?r"
      unfolding unf using ne l True by simp
    have rd: "reads e1 = Suc (reads e)" by (simp add: e1_def)
    show ?thesis
    proof (cases "p = reads e")
      case True
      have "\<forall>j<left - 1. burst_at d (reads e1 + j) = 0"
      proof (intro allI impI)
        fix j assume "j < left - 1"
        then have "Suc j < budget" using lb by simp
        with z have "burst_at d (p + Suc j) = 0" by blast
        then show "burst_at d (reads e1 + j) = 0" unfolding rd True by simp
      qed
      from send_fifo_stuck[OF ne this] show ?thesis unfolding r by simp
    next
      case False
      with lo have lo1: "reads e1 \<le> p" unfolding rd by simp
      from hi have hi1: "p < reads (snd ?r)" unfolding r .
      have lb1: "left - 1 \<le> budget" using lb by simp
      from "1.IH"(1)[OF ne l b_def e1_def True lo1 hi1 z lb1] show ?thesis unfolding r .
    qed
  next
    case nz: False
    let ?r = "send_fifo d budget budget (drop n rem) e2"
    have r: "send_fifo d budget left rem e = ?r"
      unfolding unf using ne l nz by simp
    have rd: "reads e2 = Suc (reads e)" by (simp add: e2_def e1_def)
    from nz zp have "p \<noteq> reads e" unfolding b_def by auto
    with lo have lo2: "reads e2 \<le> p" unfolding rd by simp
    from hi have hi2: "p < reads (snd ?r)" unfolding r .
    from "1.IH"(2)[OF ne l b_def e1_def nz n_def e2_def lo2 hi2 z order_refl]
    show ?thesis unfolding r .
  qed
qed

lemma recv_fifo_window:
  "reads e \<le> p \<Longrightarrow> p < reads (snd (recv_fifo d budget left need e acc))
      \<Longrightarrow>
   \<forall>j<budget. burst_at d (p + j) = 0 \<Longrightarrow> left \<le> budget \<Longrightarrow>
   fst (recv_fifo d budget left need e acc) = Inl Timeout"
proof (induction d budget left need e acc rule: recv_fifo.induct)
  case (1 d budget left need e acc)
  define b where "b = burst_at d (reads e)"
  define e1 where "e1 = e\<lparr>reads := Suc (reads e)\<rparr>"
  define c where "c = take (min b need) (drop (taken e1) (response d))"
  define e2 where "e2 = e1\<lparr>taken := taken e1 + length c, bus_ops := bus_ops e1 @ [Fifo_read
      b c]\<rparr>"
  have unf: "recv_fifo d budget left need e acc =
     (if need = 0 then (Inr acc, e)
      else if length (response d) \<le> taken e then (Inl IoError, e)
      else if left = 0 then (Inl Timeout, e)
      else if b = 0 then recv_fifo d budget (left - 1) need e1 acc
           else recv_fifo d budget budget (need - length c) e2 (acc @ c))"
    by (subst recv_fifo.simps) (simp add: Let_def b_def e1_def c_def e2_def)
  note lo = "1.prems"(1) and hi = "1.prems"(2) and z = "1.prems"(3) and lb = "1.prems"(4)
  have nd: "need \<noteq> 0" and av: "\<not> length (response d) \<le> taken e" and l: "left
      \<noteq> 0"
    using lo hi unfolding unf by (auto split: if_splits)
  from l lb have bp: "0 < budget" by simp
  with z have zp: "burst_at d p = 0" by force
  show ?case
  proof (cases "b = 0")
    case True
    let ?r = "recv_fifo d budget (left - 1) need e1 acc"
    have r: "recv_fifo d budget left need e acc = ?r"
      unfolding unf using nd av l True by simp
    have rd: "reads e1 = Suc (reads e)" by (simp add: e1_def)
    show ?thesis
    proof (cases "p = reads e")
      case True
      have z1: "\<forall>j<left - 1. burst_at d (reads e1 + j) = 0"
      proof (intro allI impI)
        fix j assume "j < left - 1"
        then have "Suc j < budget" using lb by simp
        with z have "burst_at d (p + Suc j) = 0" by blast
        then show "burst_at d (reads e1 + j) = 0" unfolding rd True by simp
      qed
      have tk1: "taken e1 < length (response d)" using av by (simp add: e1_def)
      from recv_fifo_stuck[OF nd tk1 z1] show ?thesis unfolding r by simp
    next
      case False
      with lo have lo1: "reads e1 \<le> p" unfolding rd by simp
      from hi have hi1: "p < reads (snd ?r)" unfolding r .
      have lb1: "left - 1 \<le> budget" using lb by simp
      from "1.IH"(1)[OF nd av l b_def e1_def True lo1 hi1 z lb1] show ?thesis unfolding r .
    qed
  next
    case nz: False
    let ?r = "recv_fifo d budget budget (need - length c) e2 (acc @ c)"
    have r: "recv_fifo d budget left need e acc = ?r"
      unfolding unf using nd av l nz by simp
    have rd: "reads e2 = Suc (reads e)" by (simp add: e2_def e1_def)
    from nz zp have "p \<noteq> reads e" unfolding b_def by auto
    with lo have lo2: "reads e2 \<le> p" unfolding rd by simp
    from hi have hi2: "p < reads (snd ?r)" unfolding r .
    from "1.IH"(2)[OF nd av l b_def e1_def nz c_def e2_def lo2 hi2 z order_refl]
    show ?thesis unfolding r .
  qed
qed

lemma tis_send_window:
  assumes loc: "fst (request_locality d ts n e) = None"
    and rdy: "fst (send_fifo_entry d ts n e)"
    and lo: "reads (snd (send_fifo_entry d ts n e)) \<le> p"
    and hi: "p < reads (snd (tis_send d ts n buf e))"
    and z: "\<forall>j<timeout_burst ts. burst_at d (p + j) = 0"
  shows "fst (tis_send d ts n buf e) = Some Timeout"
  unfolding tis_send_phase(1)[OF loc rdy]
  by (rule send_fifo_window[OF lo hi[unfolded tis_send_phase(2)[OF loc rdy]] z order_refl])

lemma tis_recv_window:
  assumes av: "fst (recv_fifo_entry d ts slow e)"
    and lo: "reads (snd (recv_fifo_entry d ts slow e)) \<le> p"
    and hi: "p < reads (snd (tis_recv d ts slow capacity e))"
    and z: "\<forall>j<timeout_burst ts. burst_at d (p + j) = 0"
  shows "fst (tis_recv d ts slow capacity e) = Inl Timeout"
proof -
  define tb where "tb = timeout_burst ts"
  define w where "w = recv_fifo_entry d ts slow e"
  define h where "h = recv_fifo d tb tb 6 (snd w) []"
  define bd where "bd = recv_fifo d tb tb (declared_length (projr (fst h)) - 6) (snd h) []"
  have unf: "tis_recv d ts slow capacity e =
     (if \<not> fst w then (Inl Timeout, snd w)
      else if isl (fst h) then (Inl (projl (fst h)), snd h)
      else if declared_length (projr (fst h)) < 6 \<or> capacity < declared_length (projr (fst h))
      then (Inl MalformedResponse, snd h)
      else if isl (fst bd) then (Inl (projl (fst bd)), snd bd)
      else (Inr (projr (fst h) @ projr (fst bd)),
            (snd bd)\<lparr>bus_ops := bus_ops (snd bd) @ [Deassert_command_ready]\<rparr>))"
    unfolding bd_def h_def w_def tb_def by (rule tis_recv_cases)
  have fw: "fst w" using av unfolding w_def .
  note lo' = lo[folded w_def] and z' = z[folded tb_def]
  show ?thesis
  proof (cases "p < reads (snd h)")
    case True
    from recv_fifo_window[OF lo' True[unfolded h_def] z' order_refl]
    have t: "fst h = Inl Timeout" unfolding h_def .
    show ?thesis unfolding unf using fw t by simp
  next
    case False
    then have lo2: "reads (snd h) \<le> p" by simp
    have run: "\<not> isl (fst h) \<and>
        \<not> (declared_length (projr (fst h)) < 6 \<or> capacity < declared_length (projr (fst
            h)))"
    proof (rule ccontr)
      assume "\<not> ?thesis"
      then have "snd (tis_recv d ts slow capacity e) = snd h" unfolding unf using fw by auto
      with hi lo2 show False by simp
    qed
    have rb: "reads (snd (tis_recv d ts slow capacity e)) = reads (snd bd)"
      unfolding unf using fw run by simp
    from hi have hi2: "p < reads (snd bd)" unfolding rb .
    from recv_fifo_window[OF lo2 hi2[unfolded bd_def] z' order_refl]
    have t: "fst bd = Inl Timeout" unfolding bd_def .
    show ?thesis unfolding unf using fw run t by simp
  qed
qed

text \<open>
  C1, as the engine can keep it, for every device, Timeout Set, buffer and engine state.

  \<^item> Chunks against the device. Every FIFO write of \<open>send\<close> and every FIFO read of \<open>recv\<close>
    has a status read of its own, made after the wait that precedes the FIFO phase and
    after the status read of the chunk before it; that read reported the burst count the
    chunk was sized by, every status read in between reported 0, and the chunk moves no
    more bytes than the burst count reported (\<open>advertised\<close>, \<open>within_burst\<close>).
  \<^item> Order. The bytes written are a prefix of the buffer, the bytes read a prefix of what
    the FIFO holds; a \<open>send\<close> that succeeds has written the whole buffer, a \<open>recv\<close> that
    succeeds returns exactly the bytes it read.
  \<^item> Delivery. If the burst count never stays at 0 for a whole wait budget, a \<open>send\<close>
    whose locality and command-ready waits succeed returns success with the whole buffer
    written, and a \<open>recv\<close> whose \<open>DATA_AVAIL\<close> wait succeeds on a FIFO holding a response
    with a valid declared length returns that response in full.
  \<^item> Timeout. If the burst count reads 0 for a whole wait budget from the FIFO phase's
    first status read on, \<open>send\<close> of a non-empty buffer and \<open>recv\<close> from a non-empty FIFO
    end with \<open>Timeout\<close>, no byte moved, after exactly that many status reads. More
    generally, if any status read \<open>p\<close> that the engine makes in its FIFO phase is the first
    of a whole wait budget of reads reporting 0, the operation ends with \<open>Timeout\<close>.
    Conversely, past its locality and command-ready waits \<open>send\<close> fails in no other
    way: a failure is \<open>Timeout\<close>, it leaves part of the buffer unwritten, and the last
    status reads, a whole wait budget of them, all reported 0; a \<open>recv\<close> that ends with
    \<open>Timeout\<close> after \<open>DATA_AVAIL\<close> likewise.
\<close>

theorem burst_count_chunking:
  "advertised d (reads (snd (send_fifo_entry d ts n e)))
      (reads (snd (tis_send d ts n buf e)))
      (new_ops e (snd (tis_send d ts n buf e)))
   \<and> list_all within_burst (new_ops e (snd (tis_send d ts n buf e)))
   \<and> (\<exists>k. fifo_written (new_ops e (snd (tis_send d ts n buf e))) = take k buf)
   \<and> (fst (tis_send d ts n buf e) = None \<longrightarrow>
        fifo_written (new_ops e (snd (tis_send d ts n buf e))) = buf)
   \<and> advertised d (reads (snd (recv_fifo_entry d ts slow e)))
      (reads (snd (tis_recv d ts slow capacity e)))
      (new_ops e (snd (tis_recv d ts slow capacity e)))
   \<and> list_all within_burst (new_ops e (snd (tis_recv d ts slow capacity e)))
   \<and> (\<exists>k. fifo_got (new_ops e (snd (tis_recv d ts slow capacity e))) =
             take k (drop (taken e) (response d)))
   \<and> (\<forall>bytes. fst (tis_recv d ts slow capacity e) = Inr bytes \<longrightarrow>
          bytes = fifo_got (new_ops e (snd (tis_recv d ts slow capacity e)))
          \<and> length bytes = declared_length bytes)
   \<and> ((\<forall>k. \<exists>j<timeout_burst ts. burst_at d (k + j) \<noteq> 0) \<longrightarrow>
        (fst (tis_send d ts n buf e) = None
         \<or> fst (tis_send d ts n buf e) = Some LocalityTimeout
         \<or> fst (tis_send d ts n buf e) = Some NotReady)
        \<and> (fst (request_locality d ts n e) = None
            \<and> fst (send_fifo_entry d ts n e) \<longrightarrow>
            fst (tis_send d ts n buf e) = None
            \<and> fifo_written (new_ops e (snd (tis_send d ts n buf e))) = buf)
        \<and> (fst (recv_fifo_entry d ts slow e)
            \<and> 6 \<le> length (drop (taken e) (response d))
            \<and> 6 \<le> declared_length (drop (taken e) (response d))
            \<and> declared_length (drop (taken e) (response d)) \<le> capacity
            \<and> declared_length (drop (taken e) (response d))
                 \<le> length (drop (taken e) (response d)) \<longrightarrow>
            fst (tis_recv d ts slow capacity e) =
              Inr (take (declared_length (drop (taken e) (response d)))
                     (drop (taken e) (response d)))))
   \<and> (fst (request_locality d ts n e) = None
        \<and> fst (send_fifo_entry d ts n e)
        \<and> buf \<noteq> []
        \<and> (\<forall>j<timeout_burst ts.
              burst_at d (reads (snd (send_fifo_entry d ts n e)) + j) = 0) \<longrightarrow>
        fst (tis_send d ts n buf e) = Some Timeout
        \<and> fifo_written (new_ops e (snd (tis_send d ts n buf e))) = []
        \<and> reads (snd (tis_send d ts n buf e)) =
            reads (snd (send_fifo_entry d ts n e)) + timeout_burst ts)
   \<and> (fst (recv_fifo_entry d ts slow e)
        \<and> taken e < length (response d)
        \<and> (\<forall>j<timeout_burst ts.
              burst_at d (reads (snd (recv_fifo_entry d ts slow e)) + j) = 0) \<longrightarrow>
        fst (tis_recv d ts slow capacity e) = Inl Timeout
        \<and> fifo_got (new_ops e (snd (tis_recv d ts slow capacity e))) = []
        \<and> reads (snd (tis_recv d ts slow capacity e)) =
            reads (snd (recv_fifo_entry d ts slow e)) + timeout_burst ts)
   \<and> (fst (request_locality d ts n e) = None
        \<and> fst (send_fifo_entry d ts n e)
        \<and> fst (tis_send d ts n buf e) \<noteq> None \<longrightarrow>
        fst (tis_send d ts n buf e) = Some Timeout
        \<and> length (fifo_written (new_ops e (snd (tis_send d ts n buf e)))) < length buf
        \<and> (\<exists>k. reads (snd (send_fifo_entry d ts n e)) \<le> k
               \<and> reads (snd (tis_send d ts n buf e)) = k + timeout_burst ts
               \<and> (\<forall>j<timeout_burst ts. burst_at d (k + j) = 0)))
   \<and> (fst (recv_fifo_entry d ts slow e)
        \<and> fst (tis_recv d ts slow capacity e) = Inl Timeout \<longrightarrow>
        (\<exists>k. reads (snd (recv_fifo_entry d ts slow e)) \<le> k
               \<and> reads (snd (tis_recv d ts slow capacity e)) = k + timeout_burst ts
               \<and> (\<forall>j<timeout_burst ts. burst_at d (k + j) = 0)))
   \<and> (\<forall>p. fst (request_locality d ts n e) = None
        \<and> fst (send_fifo_entry d ts n e)
        \<and> reads (snd (send_fifo_entry d ts n e)) \<le> p
        \<and> p < reads (snd (tis_send d ts n buf e))
        \<and> (\<forall>j<timeout_burst ts. burst_at d (p + j) = 0) \<longrightarrow>
        fst (tis_send d ts n buf e) = Some Timeout)
   \<and> (\<forall>p. fst (recv_fifo_entry d ts slow e)
        \<and> reads (snd (recv_fifo_entry d ts slow e)) \<le> p
        \<and> p < reads (snd (tis_recv d ts slow capacity e))
        \<and> (\<forall>j<timeout_burst ts. burst_at d (p + j) = 0) \<longrightarrow>
        fst (tis_recv d ts slow capacity e) = Inl Timeout)"
proof -
  from tis_send_inv[of d ts n buf e]
  obtain ys where S: "bus_ops (snd (tis_send d ts n buf e)) = bus_ops e @ ys
        \<and> list_all within_burst ys
        \<and> (\<exists>k. fifo_written ys = take k buf)
        \<and> (fst (tis_send d ts n buf e) = None \<longrightarrow> fifo_written ys = buf)" ..
  have ns: "new_ops e (snd (tis_send d ts n buf e)) = ys"
    using S[THEN conjunct1] by (rule new_ops_append)
  from tis_recv_inv[of d ts slow capacity e]
  obtain zs where Q: "bus_ops (snd (tis_recv d ts slow capacity e)) = bus_ops e @ zs
        \<and> list_all within_burst zs
        \<and> (\<exists>k. fifo_got zs = take k (drop (taken e) (response d)))
        \<and> (\<forall>bytes. fst (tis_recv d ts slow capacity e) = Inr bytes \<longrightarrow>
              bytes = fifo_got zs \<and> length bytes = declared_length bytes
              \<and> 6 \<le> length bytes \<and> length bytes \<le> capacity)
        \<and> (length (fifo_got zs) \<le> 6
            \<or> (6 \<le> declared_length (take 6 (fifo_got zs))
                \<and> declared_length (take 6 (fifo_got zs)) \<le> capacity))
        \<and> (fst (tis_recv d ts slow capacity e) = Inl MalformedResponse \<longrightarrow>
              length (fifo_got zs) = 6 \<and> register_writes zs = []
              \<and> (declared_length (fifo_got zs) < 6 \<or> capacity < declared_length (fifo_got
                  zs)))"
    ..
  have nr: "new_ops e (snd (tis_recv d ts slow capacity e)) = zs"
    using Q[THEN conjunct1] by (rule new_ops_append)
  note q4 = Q[THEN conjunct2, THEN conjunct2, THEN conjunct2, THEN conjunct1]
  have c1: "advertised d (reads (snd (send_fifo_entry d ts n e))) (reads (snd (tis_send d ts n buf
      e)))
        (new_ops e (snd (tis_send d ts n buf e)))"
    by (rule tis_send_adv)
  have c2: "list_all within_burst (new_ops e (snd (tis_send d ts n buf e)))"
    unfolding ns by (rule S[THEN conjunct2, THEN conjunct1])
  have c3: "(\<exists>k. fifo_written (new_ops e (snd (tis_send d ts n buf e))) = take k buf)"
    unfolding ns by (rule S[THEN conjunct2, THEN conjunct2, THEN conjunct1])
  have c4: "(fst (tis_send d ts n buf e) = None \<longrightarrow>
          fifo_written (new_ops e (snd (tis_send d ts n buf e))) = buf)"
    unfolding ns by (rule S[THEN conjunct2, THEN conjunct2, THEN conjunct2])
  have c5: "advertised d (reads (snd (recv_fifo_entry d ts slow e))) (reads (snd (tis_recv d ts
      slow capacity e)))
        (new_ops e (snd (tis_recv d ts slow capacity e)))"
    by (rule tis_recv_adv)
  have c6: "list_all within_burst (new_ops e (snd (tis_recv d ts slow capacity e)))"
    unfolding nr by (rule Q[THEN conjunct2, THEN conjunct1])
  have c7: "(\<exists>k. fifo_got (new_ops e (snd (tis_recv d ts slow capacity e))) =
               take k (drop (taken e) (response d)))"
    unfolding nr by (rule Q[THEN conjunct2, THEN conjunct2, THEN conjunct1])
  have c8: "(\<forall>bytes. fst (tis_recv d ts slow capacity e) = Inr bytes \<longrightarrow>
            bytes = fifo_got (new_ops e (snd (tis_recv d ts slow capacity e)))
            \<and> length bytes = declared_length bytes)"
    unfolding nr
  proof (intro allI impI)
    fix bytes assume "fst (tis_recv d ts slow capacity e) = Inr bytes"
    note x = q4[THEN spec, THEN mp, OF this]
    show "bytes = fifo_got zs \<and> length bytes = declared_length bytes"
      by (intro conjI x[THEN conjunct1] x[THEN conjunct2, THEN conjunct1])
  qed
  have c9: "((\<forall>k. \<exists>j<timeout_burst ts. burst_at d (k + j) \<noteq> 0)
      \<longrightarrow>
          (fst (tis_send d ts n buf e) = None
           \<or> fst (tis_send d ts n buf e) = Some LocalityTimeout
           \<or> fst (tis_send d ts n buf e) = Some NotReady)
          \<and> (fst (request_locality d ts n e) = None \<and> fst (send_fifo_entry d ts n e)
              \<longrightarrow>
              fst (tis_send d ts n buf e) = None
              \<and> fifo_written (new_ops e (snd (tis_send d ts n buf e))) = buf)
          \<and> (fst (recv_fifo_entry d ts slow e)
              \<and> 6 \<le> length (drop (taken e) (response d))
              \<and> 6 \<le> declared_length (drop (taken e) (response d))
              \<and> declared_length (drop (taken e) (response d)) \<le> capacity
              \<and> declared_length (drop (taken e) (response d))
                   \<le> length (drop (taken e) (response d)) \<longrightarrow>
              fst (tis_recv d ts slow capacity e) =
                Inr (take (declared_length (drop (taken e) (response d)))
                       (drop (taken e) (response d)))))"
  proof (intro impI conjI)
    assume fair: "\<forall>k. \<exists>j<timeout_burst ts. burst_at d (k + j) \<noteq> 0"
    show "fst (tis_send d ts n buf e) = None
         \<or> fst (tis_send d ts n buf e) = Some LocalityTimeout
         \<or> fst (tis_send d ts n buf e) = Some NotReady"
      by (rule tis_send_live[OF fair])
    {
      assume a: "fst (request_locality d ts n e) = None \<and> fst (send_fifo_entry d ts n e)"
      note x = tis_send_complete[OF fair a[THEN conjunct1] a[THEN conjunct2], of buf]
      show "fst (tis_send d ts n buf e) = None" by (rule x[THEN conjunct1])
      show "fifo_written (new_ops e (snd (tis_send d ts n buf e))) = buf" by (rule x[THEN
          conjunct2])
    }
    assume a: "fst (recv_fifo_entry d ts slow e)
            \<and> 6 \<le> length (drop (taken e) (response d))
            \<and> 6 \<le> declared_length (drop (taken e) (response d))
            \<and> declared_length (drop (taken e) (response d)) \<le> capacity
            \<and> declared_length (drop (taken e) (response d))
                 \<le> length (drop (taken e) (response d))"
    show "fst (tis_recv d ts slow capacity e) =
              Inr (take (declared_length (drop (taken e) (response d)))
                     (drop (taken e) (response d)))"
      by (rule tis_recv_live[OF fair a[THEN conjunct1, unfolded recv_fifo_entry_def]
            a[THEN conjunct2, THEN conjunct1]
            a[THEN conjunct2, THEN conjunct2, THEN conjunct1]
            a[THEN conjunct2, THEN conjunct2, THEN conjunct2, THEN conjunct1]
            a[THEN conjunct2, THEN conjunct2, THEN conjunct2, THEN conjunct2]])
  qed
  have c10: "(fst (request_locality d ts n e) = None \<and> fst (send_fifo_entry d ts n e) \<and>
      buf \<noteq> []
          \<and> (\<forall>j<timeout_burst ts. burst_at d (reads (snd (send_fifo_entry d ts n e))
              + j) = 0) \<longrightarrow>
          fst (tis_send d ts n buf e) = Some Timeout
          \<and> fifo_written (new_ops e (snd (tis_send d ts n buf e))) = []
          \<and> reads (snd (tis_send d ts n buf e)) = reads (snd (send_fifo_entry d ts n e)) +
              timeout_burst ts)"
  proof
    assume a: "fst (request_locality d ts n e) = None \<and> fst (send_fifo_entry d ts n e) \<and>
        buf \<noteq> []
        \<and> (\<forall>j<timeout_burst ts. burst_at d (reads (snd (send_fifo_entry d ts n e)) +
            j) = 0)"
    show "fst (tis_send d ts n buf e) = Some Timeout
        \<and> fifo_written (new_ops e (snd (tis_send d ts n buf e))) = []
        \<and> reads (snd (tis_send d ts n buf e)) = reads (snd (send_fifo_entry d ts n e)) +
            timeout_burst ts"
      by (rule tis_send_stuck[OF a[THEN conjunct1] a[THEN conjunct2, THEN conjunct1]
            a[THEN conjunct2, THEN conjunct2, THEN conjunct1]
            a[THEN conjunct2, THEN conjunct2, THEN conjunct2]])
  qed
  have c11: "(fst (recv_fifo_entry d ts slow e) \<and> taken e < length (response d)
          \<and> (\<forall>j<timeout_burst ts. burst_at d (reads (snd (recv_fifo_entry d ts slow
              e)) + j) = 0) \<longrightarrow>
          fst (tis_recv d ts slow capacity e) = Inl Timeout
          \<and> fifo_got (new_ops e (snd (tis_recv d ts slow capacity e))) = []
          \<and> reads (snd (tis_recv d ts slow capacity e)) =
              reads (snd (recv_fifo_entry d ts slow e)) + timeout_burst ts)"
  proof
    assume a: "fst (recv_fifo_entry d ts slow e) \<and> taken e < length (response d)
        \<and> (\<forall>j<timeout_burst ts. burst_at d (reads (snd (recv_fifo_entry d ts slow e))
            + j) = 0)"
    show "fst (tis_recv d ts slow capacity e) = Inl Timeout
        \<and> fifo_got (new_ops e (snd (tis_recv d ts slow capacity e))) = []
        \<and> reads (snd (tis_recv d ts slow capacity e)) =
            reads (snd (recv_fifo_entry d ts slow e)) + timeout_burst ts"
      by (rule tis_recv_stuck[OF a[THEN conjunct1] a[THEN conjunct2, THEN conjunct1]
            a[THEN conjunct2, THEN conjunct2]])
  qed
  have c12: "(fst (request_locality d ts n e) = None \<and> fst (send_fifo_entry d ts n e)
          \<and> fst (tis_send d ts n buf e) \<noteq> None \<longrightarrow>
          fst (tis_send d ts n buf e) = Some Timeout
          \<and> length (fifo_written (new_ops e (snd (tis_send d ts n buf e)))) < length buf
          \<and> (\<exists>k. reads (snd (send_fifo_entry d ts n e)) \<le> k
                 \<and> reads (snd (tis_send d ts n buf e)) = k + timeout_burst ts
                 \<and> (\<forall>j<timeout_burst ts. burst_at d (k + j) = 0)))"
  proof
    assume a: "fst (request_locality d ts n e) = None \<and> fst (send_fifo_entry d ts n e)
        \<and> fst (tis_send d ts n buf e) \<noteq> None"
    show "fst (tis_send d ts n buf e) = Some Timeout
        \<and> length (fifo_written (new_ops e (snd (tis_send d ts n buf e)))) < length buf
        \<and> (\<exists>k. reads (snd (send_fifo_entry d ts n e)) \<le> k
               \<and> reads (snd (tis_send d ts n buf e)) = k + timeout_burst ts
               \<and> (\<forall>j<timeout_burst ts. burst_at d (k + j) = 0))"
      by (rule tis_send_failure[OF a[THEN conjunct1] a[THEN conjunct2, THEN conjunct1]
            a[THEN conjunct2, THEN conjunct2]])
  qed
  have c13: "(fst (recv_fifo_entry d ts slow e) \<and> fst (tis_recv d ts slow capacity e) = Inl
      Timeout \<longrightarrow>
          (\<exists>k. reads (snd (recv_fifo_entry d ts slow e)) \<le> k
                 \<and> reads (snd (tis_recv d ts slow capacity e)) = k + timeout_burst ts
                 \<and> (\<forall>j<timeout_burst ts. burst_at d (k + j) = 0)))"
  proof
    assume a: "fst (recv_fifo_entry d ts slow e) \<and> fst (tis_recv d ts slow capacity e) = Inl
        Timeout"
    show "\<exists>k. reads (snd (recv_fifo_entry d ts slow e)) \<le> k
               \<and> reads (snd (tis_recv d ts slow capacity e)) = k + timeout_burst ts
               \<and> (\<forall>j<timeout_burst ts. burst_at d (k + j) = 0)"
      by (rule tis_recv_timeout[OF a[THEN conjunct1] a[THEN conjunct2]])
  qed
  have c14: "(\<forall>p. fst (request_locality d ts n e) = None \<and> fst (send_fifo_entry d ts
      n e)
          \<and> reads (snd (send_fifo_entry d ts n e)) \<le> p \<and> p < reads (snd (tis_send d
              ts n buf e))
          \<and> (\<forall>j<timeout_burst ts. burst_at d (p + j) = 0) \<longrightarrow>
          fst (tis_send d ts n buf e) = Some Timeout)"
  proof (intro allI impI)
    fix p
    assume a: "fst (request_locality d ts n e) = None \<and> fst (send_fifo_entry d ts n e)
        \<and> reads (snd (send_fifo_entry d ts n e)) \<le> p \<and> p < reads (snd (tis_send d ts
            n buf e))
        \<and> (\<forall>j<timeout_burst ts. burst_at d (p + j) = 0)"
    show "fst (tis_send d ts n buf e) = Some Timeout"
      by (rule tis_send_window[OF a[THEN conjunct1] a[THEN conjunct2, THEN conjunct1]
            a[THEN conjunct2, THEN conjunct2, THEN conjunct1]
            a[THEN conjunct2, THEN conjunct2, THEN conjunct2, THEN conjunct1]
            a[THEN conjunct2, THEN conjunct2, THEN conjunct2, THEN conjunct2]])
  qed
  have c15: "(\<forall>p. fst (recv_fifo_entry d ts slow e)
          \<and> reads (snd (recv_fifo_entry d ts slow e)) \<le> p \<and> p < reads (snd (tis_recv
              d ts slow capacity e))
          \<and> (\<forall>j<timeout_burst ts. burst_at d (p + j) = 0) \<longrightarrow>
          fst (tis_recv d ts slow capacity e) = Inl Timeout)"
  proof (intro allI impI)
    fix p
    assume a: "fst (recv_fifo_entry d ts slow e)
        \<and> reads (snd (recv_fifo_entry d ts slow e)) \<le> p \<and> p < reads (snd (tis_recv d
            ts slow capacity e))
        \<and> (\<forall>j<timeout_burst ts. burst_at d (p + j) = 0)"
    show "fst (tis_recv d ts slow capacity e) = Inl Timeout"
      by (rule tis_recv_window[OF a[THEN conjunct1] a[THEN conjunct2, THEN conjunct1]
            a[THEN conjunct2, THEN conjunct2, THEN conjunct1]
            a[THEN conjunct2, THEN conjunct2, THEN conjunct2]])
  qed
  show ?thesis
    by (intro conjI c1 c2 c3 c4 c5 c6 c7 c8 c9 c10 c11 c12 c13 c14 c15)
qed

text \<open>
  C1 as stated fails for a burst count that stays at 0: every wait is bounded, so the
  engine gives up with \<open>Timeout\<close> and not one byte has moved.
\<close>

theorem burst_count_chunking_counterexample:
  "fst (tis_send stuck_tpm short_timeouts 0 [1, 2, 3] idle) = Some Timeout
   \<and> fifo_written (bus_ops (snd (tis_send stuck_tpm short_timeouts 0 [1, 2, 3] idle))) = []
   \<and> fst (tis_recv stuck_tpm short_timeouts False 4096 idle) = Inl Timeout
   \<and> fifo_got (bus_ops (snd (tis_recv stuck_tpm short_timeouts False 4096 idle))) = []"
  by code_simp

lemma new_ops_idle: "new_ops idle e = bus_ops e"
  by (simp add: new_ops_def idle_def)

lemma bursty_fair: "\<forall>k. \<exists>j<timeout_burst short_timeouts. burst_at bursty_tpm (k + j) \<noteq> 0"
proof
  fix k :: nat
  show "\<exists>j<timeout_burst short_timeouts. burst_at bursty_tpm (k + j) \<noteq> 0"
  proof (cases "k mod 3 = 0")
    case True
    then have "(k + 1) mod 3 = 1" by presburger
    then have "burst_at bursty_tpm (k + 1) \<noteq> 0" by (simp add: bursty_tpm_def)
    moreover have "1 < timeout_burst short_timeouts" by (simp add: short_timeouts_def)
    ultimately show ?thesis by blast
  next
    case False
    then have "burst_at bursty_tpm (k + 0) \<noteq> 0" by (simp add: bursty_tpm_def)
    moreover have "0 < timeout_burst short_timeouts" by (simp add: short_timeouts_def)
    ultimately show ?thesis by blast
  qed
qed

text \<open>
  Two devices. The one whose burst count goes 0, 2, 3, 0, 2, 3, ... never stays at 0 for a
  wait budget of 3 polls: ten bytes are sent in chunks within the burst counts it
  reported, and its 8-byte response is received in full. The one whose burst count is
  stuck at 0 makes \<open>send\<close> and \<open>recv\<close> end with \<open>Timeout\<close> after 3 further status reads,
  nothing moved.
\<close>

theorem burst_count_chunking_witness:
  "(\<forall>k. \<exists>j<timeout_burst short_timeouts. burst_at bursty_tpm (k + j) \<noteq> 0)
   \<and> burst_at bursty_tpm 0 = 0
   \<and> fst (request_locality bursty_tpm short_timeouts 0 idle) = None
   \<and> fst (send_fifo_entry bursty_tpm short_timeouts 0 idle)
   \<and> fst (tis_send bursty_tpm short_timeouts 0 [1, 2, 3, 4, 5, 6, 7, 8, 9, 10] idle) = None
   \<and> fifo_written (bus_ops (snd (tis_send bursty_tpm short_timeouts 0 [1, 2, 3, 4, 5, 6, 7,
       8, 9, 10] idle))) = [1, 2, 3, 4, 5, 6, 7, 8, 9, 10]
   \<and> list_all within_burst (bus_ops (snd (tis_send bursty_tpm short_timeouts 0 [1, 2, 3, 4,
       5, 6, 7, 8, 9, 10] idle)))
   \<and> advertised bursty_tpm (reads (snd (send_fifo_entry bursty_tpm short_timeouts 0 idle)))
        (reads (snd (tis_send bursty_tpm short_timeouts 0 [1, 2, 3, 4, 5, 6, 7, 8, 9, 10] idle)))
        (bus_ops (snd (tis_send bursty_tpm short_timeouts 0 [1, 2, 3, 4, 5, 6, 7, 8, 9, 10] idle)))
   \<and> fst (recv_fifo_entry bursty_tpm short_timeouts False idle)
   \<and> fst (tis_recv bursty_tpm short_timeouts False 4096 idle) = Inr [0, 0xC4, 0, 0, 0, 8, 1, 2]
   \<and> fifo_got (bus_ops (snd (tis_recv bursty_tpm short_timeouts False 4096 idle))) = [0,
       0xC4, 0, 0, 0, 8, 1, 2]
   \<and> advertised bursty_tpm (reads (snd (recv_fifo_entry bursty_tpm short_timeouts False idle)))
        (reads (snd (tis_recv bursty_tpm short_timeouts False 4096 idle)))
        (bus_ops (snd (tis_recv bursty_tpm short_timeouts False 4096 idle)))
   \<and> burst_at stuck_tpm = (\<lambda>k. 0)
   \<and> fst (request_locality stuck_tpm short_timeouts 0 idle) = None
   \<and> fst (send_fifo_entry stuck_tpm short_timeouts 0 idle)
   \<and> fst (tis_send stuck_tpm short_timeouts 0 [1, 2, 3] idle) = Some Timeout
   \<and> fifo_written (bus_ops (snd (tis_send stuck_tpm short_timeouts 0 [1, 2, 3] idle))) = []
   \<and> reads (snd (tis_send stuck_tpm short_timeouts 0 [1, 2, 3] idle)) = reads (snd
       (send_fifo_entry stuck_tpm short_timeouts 0 idle)) + timeout_burst short_timeouts
   \<and> (\<exists>k. reads (snd (send_fifo_entry stuck_tpm short_timeouts 0 idle)) \<le> k
        \<and> reads (snd (tis_send stuck_tpm short_timeouts 0 [1, 2, 3] idle)) = k +
            timeout_burst short_timeouts
        \<and> (\<forall>j<timeout_burst short_timeouts. burst_at stuck_tpm (k + j) = 0))
   \<and> fst (recv_fifo_entry stuck_tpm short_timeouts False idle)
   \<and> fst (tis_recv stuck_tpm short_timeouts False 4096 idle) = Inl Timeout
   \<and> fifo_got (bus_ops (snd (tis_recv stuck_tpm short_timeouts False 4096 idle))) = []
   \<and> (\<exists>k. reads (snd (recv_fifo_entry stuck_tpm short_timeouts False idle)) \<le> k
        \<and> reads (snd (tis_recv stuck_tpm short_timeouts False 4096 idle)) = k + timeout_burst
            short_timeouts
        \<and> (\<forall>j<timeout_burst short_timeouts. burst_at stuck_tpm (k + j) = 0))
   \<and> reads (snd (send_fifo_entry stuck_tpm short_timeouts 0 idle)) < reads (snd (tis_send
       stuck_tpm short_timeouts 0 [1, 2, 3] idle))
   \<and> reads (snd (recv_fifo_entry stuck_tpm short_timeouts False idle)) < reads (snd (tis_recv
       stuck_tpm short_timeouts False 4096 idle))"
proof -
  note inst = burst_count_chunking[where e = idle and d = bursty_tpm and ts = short_timeouts
      and n = 0 and buf = "[1, 2, 3, 4, 5, 6, 7, 8, 9, 10]" and slow = False
      and capacity = 4096, unfolded new_ops_idle]
  note stuck = burst_count_chunking[where e = idle and d = stuck_tpm and ts = short_timeouts
      and n = 0 and buf = "[1, 2, 3]" and slow = False
      and capacity = 4096, unfolded new_ops_idle]
  note ab = inst[THEN conjunct1]
  note wb = inst[THEN conjunct2, THEN conjunct1]
  note i4 = inst[THEN conjunct2, THEN conjunct2, THEN conjunct2, THEN conjunct1]
  note ar = inst[THEN conjunct2, THEN conjunct2, THEN conjunct2, THEN conjunct2, THEN conjunct1]
  note i8 = inst[THEN conjunct2, THEN conjunct2, THEN conjunct2, THEN conjunct2, THEN conjunct2,
      THEN conjunct2, THEN conjunct2, THEN conjunct1]
  note i9 = inst[THEN conjunct2, THEN conjunct2, THEN conjunct2, THEN conjunct2, THEN conjunct2,
      THEN conjunct2, THEN conjunct2, THEN conjunct2, THEN conjunct1, THEN mp, OF bursty_fair]
  note s10 = stuck[THEN conjunct2, THEN conjunct2, THEN conjunct2, THEN conjunct2, THEN conjunct2,
      THEN conjunct2, THEN conjunct2, THEN conjunct2, THEN conjunct2, THEN conjunct1]
  note s11 = stuck[THEN conjunct2, THEN conjunct2, THEN conjunct2, THEN conjunct2, THEN conjunct2,
      THEN conjunct2, THEN conjunct2, THEN conjunct2, THEN conjunct2, THEN conjunct2, THEN
      conjunct1]
  note s12 = stuck[THEN conjunct2, THEN conjunct2, THEN conjunct2, THEN conjunct2, THEN conjunct2,
      THEN conjunct2, THEN conjunct2, THEN conjunct2, THEN conjunct2, THEN conjunct2, THEN
      conjunct2, THEN conjunct1]
  note s13 = stuck[THEN conjunct2, THEN conjunct2, THEN conjunct2, THEN conjunct2, THEN conjunct2,
      THEN conjunct2, THEN conjunct2, THEN conjunct2, THEN conjunct2, THEN conjunct2, THEN
      conjunct2, THEN conjunct2, THEN conjunct1]
  note s14 = stuck[THEN conjunct2, THEN conjunct2, THEN conjunct2, THEN conjunct2, THEN conjunct2,
      THEN conjunct2, THEN conjunct2, THEN conjunct2, THEN conjunct2, THEN conjunct2, THEN
      conjunct2, THEN conjunct2, THEN conjunct2, THEN conjunct1]
  note s15 = stuck[THEN conjunct2, THEN conjunct2, THEN conjunct2, THEN conjunct2, THEN conjunct2,
      THEN conjunct2, THEN conjunct2, THEN conjunct2, THEN conjunct2, THEN conjunct2, THEN
      conjunct2, THEN conjunct2, THEN conjunct2, THEN conjunct2]
  have b0: "burst_at bursty_tpm 0 = 0" by (simp add: bursty_tpm_def)
  have loc_b: "fst (request_locality bursty_tpm short_timeouts 0 idle) = None" by code_simp
  have rdy_b: "fst (send_fifo_entry bursty_tpm short_timeouts 0 idle)" by code_simp
  note sb = i9[THEN conjunct2, THEN conjunct1, THEN mp, OF conjI[OF loc_b rdy_b]]
  note ok = sb[THEN conjunct1]
  note wr = i4[THEN mp, OF ok]
  have dl: "declared_length (drop (taken idle) (response bursty_tpm)) = 8"
    by (simp add: idle_def bursty_tpm_def declared_length_def)
  have av_b: "fst (recv_fifo_entry bursty_tpm short_timeouts False idle)" by code_simp
  have p2: "6 \<le> length (drop (taken idle) (response bursty_tpm))"
    by (simp add: idle_def bursty_tpm_def)
  have p3: "6 \<le> declared_length (drop (taken idle) (response bursty_tpm))"
    "declared_length (drop (taken idle) (response bursty_tpm)) \<le> 4096"
    unfolding dl by simp_all
  have p5: "declared_length (drop (taken idle) (response bursty_tpm))
                 \<le> length (drop (taken idle) (response bursty_tpm))"
    unfolding dl by (simp add: idle_def bursty_tpm_def)
  have val: "take (declared_length (drop (taken idle) (response bursty_tpm)))
                     (drop (taken idle) (response bursty_tpm)) = [0, 0xC4, 0, 0, 0, 8, 1, 2]"
    unfolding dl by (simp add: idle_def bursty_tpm_def)
  note rv = i9[THEN conjunct2, THEN conjunct2, THEN mp,
      OF conjI[OF av_b conjI[OF p2 conjI[OF p3(1) conjI[OF p3(2) p5]]]], unfolded val]
  note got = i8[THEN spec, THEN mp, OF rv, THEN conjunct1, symmetric]
  have sz: "burst_at stuck_tpm = (\<lambda>k. 0)" by (simp add: stuck_tpm_def)
  have loc_s: "fst (request_locality stuck_tpm short_timeouts 0 idle) = None" by code_simp
  have rdy_s: "fst (send_fifo_entry stuck_tpm short_timeouts 0 idle)" by code_simp
  have ne: "[1, 2, 3] \<noteq> ([] :: u8 list)" by simp
  have z: "\<forall>j<timeout_burst short_timeouts. burst_at stuck_tpm (reads x + j) = 0" for x ::
      engine
    by (simp add: sz)
  note st = s10[THEN mp, OF conjI[OF loc_s conjI[OF rdy_s conjI[OF ne z]]]]
  have hi_s: "reads (snd (send_fifo_entry stuck_tpm short_timeouts 0 idle)) < reads (snd (tis_send
      stuck_tpm short_timeouts 0 [1, 2, 3] idle))"
    unfolding st[THEN conjunct2, THEN conjunct2] by (simp add: short_timeouts_def)
  note st1 = s14[THEN spec, THEN mp,
      OF conjI[OF loc_s conjI[OF rdy_s conjI[OF order_refl conjI[OF hi_s z]]]]]
  note st2 = st[THEN conjunct2, THEN conjunct1]
  note st3 = st[THEN conjunct2, THEN conjunct2]
  have nn: "fst (tis_send stuck_tpm short_timeouts 0 [1, 2, 3] idle) \<noteq> None" unfolding st1
      by simp
  note sw = s12[THEN mp, OF conjI[OF loc_s conjI[OF rdy_s nn]], THEN conjunct2, THEN conjunct2]
  have av_s: "fst (recv_fifo_entry stuck_tpm short_timeouts False idle)" by code_simp
  have tk: "taken idle < length (response stuck_tpm)" by (simp add: idle_def stuck_tpm_def)
  note rt = s11[THEN mp, OF conjI[OF av_s conjI[OF tk z]]]
  have hi_r: "reads (snd (recv_fifo_entry stuck_tpm short_timeouts False idle)) < reads (snd
      (tis_recv stuck_tpm short_timeouts False 4096 idle))"
    unfolding rt[THEN conjunct2, THEN conjunct2] by (simp add: short_timeouts_def)
  note rt1 = s15[THEN spec, THEN mp, OF conjI[OF av_s conjI[OF order_refl conjI[OF hi_r z]]]]
  note rt2 = rt[THEN conjunct2, THEN conjunct1]
  note rw = s13[THEN mp, OF conjI[OF av_s rt1]]
  show ?thesis
    by (intro conjI bursty_fair b0 loc_b rdy_b ok wr wb ab av_b rv got ar sz loc_s rdy_s st1 st2
        st3 sw av_s rt1 rt2 rw hi_s hi_r)
qed

text \<open>
  C2. In every call of \<open>recv\<close> the header comes first: no byte beyond the sixth is read
  unless the first six declare a length within \<open>[6, capacity]\<close>. Whenever \<open>recv\<close> fails
  with \<open>MalformedResponse\<close> it has read exactly six bytes, whose declared length is out
  of range, and has written no register. And once the wait for data and the read of the
  six header bytes have succeeded, a declared length outside \<open>[6, capacity]\<close> makes
  \<open>recv\<close> fail with \<open>MalformedResponse\<close>, the header being all that was read.
\<close>

theorem malformed_header_stops_recv:
  "(length (fifo_got (new_ops e (snd (tis_recv d ts slow capacity e)))) \<le> 6
    \<or> (6 \<le> declared_length (take 6 (fifo_got (new_ops e (snd (tis_recv d ts slow capacity e)))))
        \<and> declared_length (take 6 (fifo_got (new_ops e (snd (tis_recv d ts slow capacity e)))))
             \<le> capacity))
   \<and> (fst (tis_recv d ts slow capacity e) = Inl MalformedResponse \<longrightarrow>
         length (fifo_got (new_ops e (snd (tis_recv d ts slow capacity e)))) = 6
         \<and> register_writes (new_ops e (snd (tis_recv d ts slow capacity e))) = []
         \<and> (declared_length (fifo_got (new_ops e (snd (tis_recv d ts slow capacity e)))) < 6
            \<or> capacity
                 < declared_length (fifo_got (new_ops e (snd (tis_recv d ts slow capacity e))))))
   \<and> (fst (wait_for (avail_at d) (if slow then timeout_d ts else timeout_c ts) e)
        \<and> fst (recv_fifo d (timeout_burst ts) (timeout_burst ts) 6
                 (snd (wait_for (avail_at d) (if slow then timeout_d ts else timeout_c ts) e)) [])
            = Inr hdr
        \<and> (declared_length hdr < 6 \<or> capacity < declared_length hdr) \<longrightarrow>
         fst (tis_recv d ts slow capacity e) = Inl MalformedResponse
         \<and> length hdr = 6
         \<and> fifo_got (new_ops e (snd (tis_recv d ts slow capacity e))) = hdr)"
proof -
  from tis_recv_inv[of d ts slow capacity e]
  obtain zs where Q: "bus_ops (snd (tis_recv d ts slow capacity e)) = bus_ops e @ zs
        \<and> list_all within_burst zs
        \<and> (\<exists>k. fifo_got zs = take k (drop (taken e) (response d)))
        \<and> (\<forall>bytes. fst (tis_recv d ts slow capacity e) = Inr bytes \<longrightarrow>
              bytes = fifo_got zs \<and> length bytes = declared_length bytes
              \<and> 6 \<le> length bytes \<and> length bytes \<le> capacity)
        \<and> (length (fifo_got zs) \<le> 6
            \<or> (6 \<le> declared_length (take 6 (fifo_got zs))
                \<and> declared_length (take 6 (fifo_got zs)) \<le> capacity))
        \<and> (fst (tis_recv d ts slow capacity e) = Inl MalformedResponse \<longrightarrow>
              length (fifo_got zs) = 6 \<and> register_writes zs = []
              \<and> (declared_length (fifo_got zs) < 6 \<or> capacity < declared_length (fifo_got zs)))"
    ..
  have nr: "new_ops e (snd (tis_recv d ts slow capacity e)) = zs"
    using Q[THEN conjunct1] by (rule new_ops_append)
  note q5 = Q[THEN conjunct2, THEN conjunct2, THEN conjunct2, THEN conjunct2, THEN conjunct1]
  note q6 = Q[THEN conjunct2, THEN conjunct2, THEN conjunct2, THEN conjunct2, THEN conjunct2]
  have c3: "fst (wait_for (avail_at d) (if slow then timeout_d ts else timeout_c ts) e)
        \<and> fst (recv_fifo d (timeout_burst ts) (timeout_burst ts) 6
                 (snd (wait_for (avail_at d) (if slow then timeout_d ts else timeout_c ts) e)) [])
            = Inr hdr
        \<and> (declared_length hdr < 6 \<or> capacity < declared_length hdr) \<longrightarrow>
         fst (tis_recv d ts slow capacity e) = Inl MalformedResponse
         \<and> length hdr = 6
         \<and> fifo_got zs = hdr"
  proof
    define w where "w = wait_for (avail_at d) (if slow then timeout_d ts else timeout_c ts) e"
    define h where "h = recv_fifo d (timeout_burst ts) (timeout_burst ts) 6 (snd w) []"
    assume "fst (wait_for (avail_at d) (if slow then timeout_d ts else timeout_c ts) e)
        \<and> fst (recv_fifo d (timeout_burst ts) (timeout_burst ts) 6
                 (snd (wait_for (avail_at d) (if slow then timeout_d ts else timeout_c ts) e)) [])
            = Inr hdr
        \<and> (declared_length hdr < 6 \<or> capacity < declared_length hdr)"
    then have a: "fst w" "fst h = Inr hdr" "declared_length hdr < 6 \<or> capacity < declared_length hdr"
      unfolding h_def w_def by blast+
    have t: "tis_recv d ts slow capacity e = (Inl MalformedResponse, snd h)"
      by (subst tis_recv_unfold) (use a in \<open>simp add: h_def[symmetric] w_def[symmetric]\<close>)
    then have m: "fst (tis_recv d ts slow capacity e) = Inl MalformedResponse" by simp
    have ow: "bus_ops (snd w) = bus_ops e" unfolding w_def by (rule wait_for_ops)
    from recv_fifo_inv[of d "timeout_burst ts" "timeout_burst ts" 6 "snd w" "[]"]
    obtain ys where P: "bus_ops (snd h) = bus_ops (snd w) @ ys
        \<and> list_all within_burst ys
        \<and> register_writes ys = []
        \<and> (\<exists>k. fifo_got ys = take k (drop (taken (snd w)) (response d)))
        \<and> taken (snd h) = taken (snd w) + length (fifo_got ys)
        \<and> length (fifo_got ys) \<le> 6
        \<and> (\<forall>bytes. fst h = Inr bytes \<longrightarrow>
              bytes = [] @ fifo_got ys \<and> length (fifo_got ys) = 6)"
      unfolding h_def ..
    note p7 = P[THEN conjunct2, THEN conjunct2, THEN conjunct2, THEN conjunct2, THEN conjunct2,
        THEN conjunct2, THEN spec, THEN mp, OF a(2)]
    have hg: "hdr = fifo_got ys" "length (fifo_got ys) = 6"
      using p7[THEN conjunct1] p7[THEN conjunct2] by simp_all
    have "bus_ops (snd (tis_recv d ts slow capacity e)) = bus_ops e @ ys"
      unfolding t using P[THEN conjunct1] ow by simp
    with Q[THEN conjunct1] have "zs = ys" by simp
    with hg m show "fst (tis_recv d ts slow capacity e) = Inl MalformedResponse
         \<and> length hdr = 6 \<and> fifo_got zs = hdr" by simp
  qed
  show ?thesis
    unfolding nr by (intro conjI q5 q6 c3)
qed

text \<open>A device whose header declares a length of 3.\<close>

theorem malformed_header_stops_recv_witness:
  "declared_length [0, 0xC4, 0, 0, 0, 3] = 3
   \<and> fst (tis_recv malformed_tpm short_timeouts False 4096 idle) = Inl MalformedResponse
   \<and> fifo_got (bus_ops (snd (tis_recv malformed_tpm short_timeouts False 4096 idle))) =
        [0, 0xC4, 0, 0, 0, 3]
   \<and> register_writes (bus_ops (snd (tis_recv malformed_tpm short_timeouts False 4096 idle))) = []"
proof -
  note inst = malformed_header_stops_recv[where e = idle and d = malformed_tpm
      and ts = short_timeouts and slow = False and capacity = 4096
      and hdr = "[0, 0xC4, 0, 0, 0, 3]", unfolded new_ops_idle]
  have dl: "declared_length [0, 0xC4, 0, 0, 0, 3] = 3"
    by (simp add: declared_length_def)
  have p1: "fst (wait_for (avail_at malformed_tpm)
                 (if False then timeout_d short_timeouts else timeout_c short_timeouts) idle)"
    by code_simp
  have p2: "fst (recv_fifo malformed_tpm (timeout_burst short_timeouts) (timeout_burst short_timeouts) 6
                 (snd (wait_for (avail_at malformed_tpm)
                   (if False then timeout_d short_timeouts else timeout_c short_timeouts) idle)) [])
            = Inr [0, 0xC4, 0, 0, 0, 3]"
    by code_simp
  have p3: "declared_length [0, 0xC4, 0, 0, 0, 3] < 6 \<or> 4096 < declared_length [0, 0xC4, 0, 0, 0, 3]"
    unfolding dl by simp
  note pre = conjI[OF p1 conjI[OF p2 p3]]
  note c = inst[THEN conjunct2, THEN conjunct2, THEN mp, OF pre]
  note m = c[THEN conjunct1]
  note b = inst[THEN conjunct2, THEN conjunct1, THEN mp, OF m]
  show ?thesis
    by (intro conjI dl m c[THEN conjunct2, THEN conjunct2] b[THEN conjunct2, THEN conjunct1])
qed

text \<open>
  C8. \<open>request_locality\<close> is idempotent. With locality \<open>n\<close> already active, a request for
  \<open>n\<close> reports success and leaves the engine as it was: no register is written, none is
  even read. In particular a second request right after a successful first one, whatever
  the device does in between, adds no register write and reports success.
\<close>

theorem request_locality_idempotent:
  "(locality e = Some n \<longrightarrow> request_locality d ts n e = (None, e))
   \<and> (fst (request_locality d ts n e) = None \<longrightarrow>
        fst (request_locality d' ts' n (snd (request_locality d ts n e))) = None
        \<and> snd (request_locality d' ts' n (snd (request_locality d ts n e))) =
            snd (request_locality d ts n e)
        \<and> register_writes
             (new_ops (snd (request_locality d ts n e))
                (snd (request_locality d' ts' n (snd (request_locality d ts n e))))) = [])"
proof (intro conjI impI)
  assume "locality e = Some n"
  then show "request_locality d ts n e = (None, e)" by (simp add: request_locality_def)
next
  assume ok: "fst (request_locality d ts n e) = None"
  have act: "locality (snd (request_locality d ts n e)) = Some n"
    using ok by (simp add: request_locality_def Let_def case_prod_beta split: if_splits)
  then have again: "request_locality d' ts' n (snd (request_locality d ts n e)) =
                      (None, snd (request_locality d ts n e))"
    by (simp add: request_locality_def)
  show "fst (request_locality d' ts' n (snd (request_locality d ts n e))) = None"
    unfolding again by simp
  show "snd (request_locality d' ts' n (snd (request_locality d ts n e))) =
            snd (request_locality d ts n e)"
    unfolding again by simp
  show "register_writes
             (new_ops (snd (request_locality d ts n e))
                (snd (request_locality d' ts' n (snd (request_locality d ts n e))))) = []"
    unfolding again by (simp add: new_ops_def)
qed

theorem request_locality_idempotent_witness:
  "locality idle = None
   \<and> fst (request_locality bursty_tpm short_timeouts 0 idle) = None
   \<and> bus_ops (snd (request_locality bursty_tpm short_timeouts 0 idle)) = [Request_locality 0]
   \<and> locality (snd (request_locality bursty_tpm short_timeouts 0 idle)) = Some 0
   \<and> fst (request_locality bursty_tpm short_timeouts 0
             (snd (request_locality bursty_tpm short_timeouts 0 idle))) = None
   \<and> bus_ops (snd (request_locality bursty_tpm short_timeouts 0
             (snd (request_locality bursty_tpm short_timeouts 0 idle)))) = [Request_locality 0]"
proof -
  note inst = request_locality_idempotent[where e = idle and n = 0 and d = bursty_tpm
      and ts = short_timeouts and d' = bursty_tpm and ts' = short_timeouts]
  have l0: "locality idle = None" by (simp add: idle_def)
  have ok: "fst (request_locality bursty_tpm short_timeouts 0 idle) = None" by code_simp
  have ops: "bus_ops (snd (request_locality bursty_tpm short_timeouts 0 idle)) = [Request_locality 0]"
    by code_simp
  have loc: "locality (snd (request_locality bursty_tpm short_timeouts 0 idle)) = Some 0"
    by code_simp
  note c = inst[THEN conjunct2, THEN mp, OF ok]
  have same: "bus_ops (snd (request_locality bursty_tpm short_timeouts 0
             (snd (request_locality bursty_tpm short_timeouts 0 idle)))) = [Request_locality 0]"
    unfolding c[THEN conjunct2, THEN conjunct1] by (rule ops)
  show ?thesis
    by (intro conjI l0 ok ops loc c[THEN conjunct1] same)
qed

end
